theory Spec2Isabelle
  imports Main "HOL-Library.AList"
begin

section \<open>JSON values and the JavaScript operations the proxy applies to them\<close>

text \<open>
  The handler works on untyped documents (\<^verbatim>\<open>body: any\<close>, \<^verbatim>\<open>JSON.parse\<close> results).
  A JSON value is modelled as it is at run time; JavaScript's \<^verbatim>\<open>undefined\<close> is
  \<open>None\<close> of \<open>json option\<close>. Numbers are the integers (no fractions, no NaN),
  text is a list of 8-bit characters (ASCII text; a character outside ASCII is the
  sequence of its UTF-8 bytes), and an object is an association list in insertion order:
  a property is read with \<open>map_of\<close>, written with \<open>AList.update\<close> (in place when the
  key exists, appended otherwise) and removed with \<open>AList.delete\<close>.
\<close>

datatype json =
    JNull
  | JBool bool
  | JNum int
  | JStr string
  | JArr "json list"
  | JObj "(string \<times> json) list"

type_synonym obj = "(string \<times> json) list"

datatype js_error =
    TypeError
  | Rejection string
  | Unmodelled

text \<open>Truthiness (\<^verbatim>\<open>if (x)\<close>, \<^verbatim>\<open>!x\<close>, \<^verbatim>\<open>x && y\<close>).\<close>

fun truthy :: "json \<Rightarrow> bool" where
  "truthy JNull = False"
| "truthy (JBool b) = b"
| "truthy (JNum n) = (n \<noteq> 0)"
| "truthy (JStr s) = (s \<noteq> [])"
| "truthy (JArr xs) = True"
| "truthy (JObj kvs) = True"

fun truthy_opt :: "json option \<Rightarrow> bool" where
  "truthy_opt None = False"
| "truthy_opt (Some v) = truthy v"

text \<open>\<^verbatim>\<open>typeof x === "object"\<close> for a value that is not \<^verbatim>\<open>null\<close>.\<close>

fun is_object :: "json \<Rightarrow> bool" where
  "is_object (JArr xs) = True"
| "is_object (JObj kvs) = True"
| "is_object v = False"

text \<open>
  \<open>get k v\<close> is the property read \<^verbatim>\<open>v.k\<close> on a value that is neither \<^verbatim>\<open>null\<close>
  nor \<^verbatim>\<open>undefined\<close>, for the property names the proxy reads (none of them is a
  built-in property of strings, numbers, booleans or arrays, so the read gives
  \<^verbatim>\<open>undefined\<close> on those). \<open>oget k x\<close> is the optional chain \<^verbatim>\<open>x?.k\<close>, and
  \<open>nullish_or x d\<close> is \<^verbatim>\<open>x ?? d\<close>.
\<close>

fun get :: "string \<Rightarrow> json \<Rightarrow> json option" where
  "get k (JObj kvs) = map_of kvs k"
| "get k v = None"

fun oget :: "string \<Rightarrow> json option \<Rightarrow> json option" where
  "oget k None = None"
| "oget k (Some JNull) = None"
| "oget k (Some v) = get k v"

fun nullish_or :: "json option \<Rightarrow> json \<Rightarrow> json" where
  "nullish_or None d = d"
| "nullish_or (Some JNull) d = d"
| "nullish_or (Some v) d = v"

text \<open>\<^verbatim>\<open>String.prototype.includes\<close>, \<^verbatim>\<open>split\<close> and \<^verbatim>\<open>replace\<close> with a string pattern.\<close>

fun includes_str :: "string \<Rightarrow> string \<Rightarrow> bool" where
  "includes_str [] pat = (pat = [])"
| "includes_str (c # cs) pat = (take (length pat) (c # cs) = pat \<or> includes_str cs pat)"

function js_split :: "string \<Rightarrow> string \<Rightarrow> string list" where
  "js_split sep [] = [[]]"
| "js_split sep (c # cs) =
     (if sep \<noteq> [] \<and> take (length sep) (c # cs) = sep
      then [] # js_split sep (drop (length sep) (c # cs))
      else (case js_split sep cs of [] \<Rightarrow> [[c]] | p # ps \<Rightarrow> (c # p) # ps))"
  by pat_completeness auto
termination
  by (relation "measure (\<lambda>(sep, s). length s)") (auto simp: Suc_le_eq)

fun replace_first :: "string \<Rightarrow> string \<Rightarrow> string \<Rightarrow> string" where
  "replace_first pat rep [] = (if pat = [] then rep else [])"
| "replace_first pat rep (c # cs) =
     (if take (length pat) (c # cs) = pat then rep @ drop (length pat) (c # cs)
      else c # replace_first pat rep cs)"

text \<open>Decimal digits of a number, and \<^verbatim>\<open>String(x)\<close> as string concatenation applies it.\<close>

fun digit_char :: "nat \<Rightarrow> char" where
  "digit_char n = char_of (48 + n)"

function digits :: "nat \<Rightarrow> string" where
  "digits n = (if n < 10 then [digit_char n] else digits (n div 10) @ [digit_char (n mod 10)])"
  by pat_completeness auto
termination
  by (relation "measure id") auto

fun show_int :: "int \<Rightarrow> string" where
  "show_int i = (if i < 0 then CHR ''-'' # digits (nat (- i)) else digits (nat i))"

fun join_comma :: "string list \<Rightarrow> string" where
  "join_comma [] = []"
| "join_comma [s] = s"
| "join_comma (s # t # ss) = s @ '','' @ join_comma (t # ss)"

fun js_to_string :: "json \<Rightarrow> string" where
  "js_to_string JNull = ''null''"
| "js_to_string (JBool b) = (if b then ''true'' else ''false'')"
| "js_to_string (JNum n) = show_int n"
| "js_to_string (JStr s) = s"
| "js_to_string (JArr xs) =
     join_comma (map (\<lambda>x. if x = JNull then [] else js_to_string x) xs)"
| "js_to_string (JObj kvs) = ''[object Object]''"

text \<open>
  The binary \<^verbatim>\<open>+\<close> of \<^verbatim>\<open>a += b\<close>: concatenation as soon as one operand is a string
  or an object (which converts to a string), addition of the numeric values otherwise.
\<close>

fun stringish :: "json \<Rightarrow> bool" where
  "stringish (JStr s) = True"
| "stringish (JArr xs) = True"
| "stringish (JObj kvs) = True"
| "stringish v = False"

fun to_number :: "json \<Rightarrow> int" where
  "to_number (JNum n) = n"
| "to_number (JBool b) = (if b then 1 else 0)"
| "to_number v = 0"

definition js_plus :: "json \<Rightarrow> json \<Rightarrow> json" where
  "js_plus a b =
     (if stringish a \<or> stringish b then JStr (js_to_string a @ js_to_string b)
      else JNum (to_number a + to_number b))"

section \<open>The statistics ledger (\<^verbatim>\<open>stats\<close>, \<^verbatim>\<open>recordRequest\<close>)\<close>

text \<open>
  A usage record holds what the interceptor's variables hold when the stream ends. Only
  \<^verbatim>\<open>reqInputTokens\<close> is forced to a number by the code (\<^verbatim>\<open>typeof inp === "number"\<close>);
  the other captured fields are whatever JSON value the frame carried.
\<close>

record RequestRecord =
  ts :: string
  model :: json
  messages :: json
  inputTokens :: int
  outputTokens :: json
  cacheCreation :: json
  cacheRead :: json
  durationMs :: int
  stopReason :: json

record stats =
  totalRequests :: int
  totalInputTokens :: int
  totalOutputTokens :: json
  totalCacheCreation :: json
  totalCacheRead :: json
  recentRequests :: "RequestRecord list"
  activeRequests :: int

definition MAX_RECENT :: nat where
  "MAX_RECENT = 20"

definition stats_init :: stats where
  "stats_init =
     \<lparr>totalRequests = 0, totalInputTokens = 0, totalOutputTokens = JNum 0,
      totalCacheCreation = JNum 0, totalCacheRead = JNum 0, recentRequests = [],
      activeRequests = 0\<rparr>"

text \<open>\<^verbatim>\<open>unshift\<close> puts the record in front; \<^verbatim>\<open>pop\<close> removes the last entry.\<close>

definition recordRequest :: "RequestRecord \<Rightarrow> stats \<Rightarrow> stats" where
  "recordRequest rec st =
     (let unshifted = rec # recentRequests st in
      st\<lparr>totalRequests := totalRequests st + 1,
         totalInputTokens := totalInputTokens st + inputTokens rec,
         totalOutputTokens := js_plus (totalOutputTokens st) (outputTokens rec),
         totalCacheCreation := js_plus (totalCacheCreation st) (cacheCreation rec),
         totalCacheRead := js_plus (totalCacheRead st) (cacheRead rec),
         recentRequests :=
           (if length unshifted > MAX_RECENT then butlast unshifted else unshifted)\<rparr>)"

text \<open>A sequence of record operations, oldest first.\<close>

fun record_all :: "RequestRecord list \<Rightarrow> stats \<Rightarrow> stats" where
  "record_all [] st = st"
| "record_all (r # rs) st = record_all rs (recordRequest r st)"

section \<open>The stream interceptor (\<^verbatim>\<open>interceptStream\<close>)\<close>

text \<open>
  The closure's variables. \<open>transcript\<close> is the sequence of \<^verbatim>\<open>log(...)\<close> calls the
  request made, each with the values it interpolates; the timestamp prefix and the
  layout of the written line are left out. File appends are taken to succeed.
\<close>

datatype log_call =
    LogStart json json json json json
  | LogThinking
  | LogText
  | LogTool json
  | LogServerTool json
  | LogDelta "json option"
  | LogToolInput string
  | LogBlockEnd
  | LogDone "json option" json

record tap_state =
  buf :: string
  blockType :: json
  toolName :: json
  toolInput :: string
  reqInputTokens :: int
  reqOutputTokens :: json
  reqCacheCreation :: json
  reqCacheRead :: json
  reqStopReason :: json
  transcript :: "log_call list"

definition tap_init :: tap_state where
  "tap_init =
     \<lparr>buf = [], blockType = JStr [], toolName = JStr [], toolInput = [],
      reqInputTokens = 0, reqOutputTokens = JNum 0, reqCacheCreation = JNum 0,
      reqCacheRead = JNum 0, reqStopReason = JStr ''?'', transcript = []\<rparr>"

text \<open>
  What does not come from the repository is a parameter: \<open>logging\<close> is
  \<^verbatim>\<open>THINKING_LOG_ENABLED\<close>, \<open>parse\<close> is \<^verbatim>\<open>JSON.parse\<close> (\<open>None\<close> when it throws) and
  \<open>stringify\<close> is \<^verbatim>\<open>JSON.stringify\<close>.
\<close>

definition log_line :: "bool \<Rightarrow> log_call \<Rightarrow> tap_state \<Rightarrow> tap_state" where
  "log_line logging e st = (if logging then st\<lparr>transcript := transcript st @ [e]\<rparr> else st)"

definition on_message_start :: "bool \<Rightarrow> json \<Rightarrow> json \<Rightarrow> json \<Rightarrow> tap_state \<Rightarrow> tap_state" where
  "on_message_start logging mdl msgCount data st =
     (let m = get ''message'' data;
          inp = nullish_or (oget ''input_tokens'' (oget ''usage'' m)) (JNum 0);
          cc = nullish_or (oget ''cache_creation_input_tokens'' (oget ''usage'' m)) (JNum 0);
          cr = nullish_or (oget ''cache_read_input_tokens'' (oget ''usage'' m)) (JNum 0)
      in log_line logging (LogStart (nullish_or (oget ''model'' m) mdl) msgCount inp cr cc)
           (st\<lparr>reqInputTokens := (case inp of JNum n \<Rightarrow> n | _ \<Rightarrow> 0),
               reqCacheCreation := cc,
               reqCacheRead := cr\<rparr>))"

definition on_content_block_start :: "bool \<Rightarrow> json \<Rightarrow> tap_state \<Rightarrow> tap_state" where
  "on_content_block_start logging data st =
     (let cb = get ''content_block'' data;
          bt = nullish_or (oget ''type'' cb) (JStr []);
          st1 = st\<lparr>blockType := bt\<rparr>
      in if bt = JStr ''thinking'' then log_line logging LogThinking st1
         else if bt = JStr ''text'' then log_line logging LogText st1
         else if bt = JStr ''tool_use'' then
           (let tn = nullish_or (oget ''name'' cb) (JStr ''?'')
            in log_line logging (LogTool tn) (st1\<lparr>toolName := tn, toolInput := []\<rparr>))
         else if bt = JStr ''server_tool_use'' then
           (let tn = nullish_or (oget ''name'' cb) (JStr ''?'')
            in log_line logging (LogServerTool tn) (st1\<lparr>toolName := tn, toolInput := []\<rparr>))
         else st1)"

definition on_content_block_delta :: "bool \<Rightarrow> json \<Rightarrow> tap_state \<Rightarrow> tap_state" where
  "on_content_block_delta logging data st =
     (let d = get ''delta'' data; dt = oget ''type'' d
      in if dt = Some (JStr ''thinking_delta'') then log_line logging (LogDelta (oget ''thinking'' d)) st
         else if dt = Some (JStr ''text_delta'') then log_line logging (LogDelta (oget ''text'' d)) st
         else if dt = Some (JStr ''input_json_delta'') then
           st\<lparr>toolInput := toolInput st @ js_to_string (nullish_or (oget ''partial_json'' d) (JStr []))\<rparr>
         else st)"

definition on_content_block_stop ::
  "bool \<Rightarrow> (string \<Rightarrow> json option) \<Rightarrow> (json \<Rightarrow> string) \<Rightarrow> tap_state \<Rightarrow> tap_state" where
  "on_content_block_stop logging parse stringify st =
     (let st1 =
            (if (blockType st = JStr ''tool_use'' \<or> blockType st = JStr ''server_tool_use'')
                \<and> toolInput st \<noteq> []
             then (case parse (toolInput st) of
                     Some parsed \<Rightarrow> log_line logging (LogToolInput (take 150 (stringify parsed))) st
                   | None \<Rightarrow> log_line logging (LogToolInput (take 150 (toolInput st))) st)
             else st)
      in (log_line logging LogBlockEnd st1)\<lparr>blockType := JStr [], toolName := JStr [], toolInput := []\<rparr>)"

definition on_message_delta :: "bool \<Rightarrow> json \<Rightarrow> tap_state \<Rightarrow> tap_state" where
  "on_message_delta logging data st =
     (case get ''usage'' data of
        None \<Rightarrow> st
      | Some u \<Rightarrow>
          if truthy u then
            (let sr = nullish_or (oget ''stop_reason'' (get ''delta'' data)) (JStr ''?'')
             in log_line logging (LogDone (get ''output_tokens'' u) sr)
                  (st\<lparr>reqOutputTokens := nullish_or (get ''output_tokens'' u) (JNum 0),
                      reqStopReason := sr\<rparr>))
          else st)"

text \<open>
  The body of the inner \<^verbatim>\<open>try\<close> after \<^verbatim>\<open>JSON.parse\<close> succeeded. \<^verbatim>\<open>data.type\<close> throws
  on \<^verbatim>\<open>null\<close>; the \<^verbatim>\<open>catch {}\<close> swallows it and the frame changes nothing.
\<close>

definition handle_event ::
  "bool \<Rightarrow> (string \<Rightarrow> json option) \<Rightarrow> (json \<Rightarrow> string) \<Rightarrow> json \<Rightarrow> json \<Rightarrow> json \<Rightarrow>
   tap_state \<Rightarrow> tap_state" where
  "handle_event logging parse stringify mdl msgCount data st =
     (if data = JNull then st
      else
        (let t = get ''type'' data
         in if t = Some (JStr ''message_start'') then on_message_start logging mdl msgCount data st
            else if t = Some (JStr ''content_block_start'') then on_content_block_start logging data st
            else if t = Some (JStr ''content_block_delta'') then on_content_block_delta logging data st
            else if t = Some (JStr ''content_block_stop'') then
              on_content_block_stop logging parse stringify st
            else if t = Some (JStr ''message_delta'') then on_message_delta logging data st
            else st))"

text \<open>One iteration of \<^verbatim>\<open>for (const part of parts)\<close>.\<close>

definition handle_part ::
  "bool \<Rightarrow> (string \<Rightarrow> json option) \<Rightarrow> (json \<Rightarrow> string) \<Rightarrow> json \<Rightarrow> json \<Rightarrow> string \<Rightarrow>
   tap_state \<Rightarrow> tap_state" where
  "handle_part logging parse stringify mdl msgCount part st =
     (case List.find (\<lambda>l. take 6 l = ''data: '') (js_split [CHR 0x0A] part) of
        None \<Rightarrow> st
      | Some dataLine \<Rightarrow>
          (case parse (drop 6 dataLine) of
             None \<Rightarrow> st
           | Some data \<Rightarrow> handle_event logging parse stringify mdl msgCount data st))"

fun handle_parts ::
  "bool \<Rightarrow> (string \<Rightarrow> json option) \<Rightarrow> (json \<Rightarrow> string) \<Rightarrow> json \<Rightarrow> json \<Rightarrow> string list \<Rightarrow>
   tap_state \<Rightarrow> tap_state" where
  "handle_parts logging parse stringify mdl msgCount [] st = st"
| "handle_parts logging parse stringify mdl msgCount (p # ps) st =
     handle_parts logging parse stringify mdl msgCount ps
       (handle_part logging parse stringify mdl msgCount p st)"

text \<open>
  The lines after \<^verbatim>\<open>controller.enqueue(value)\<close>: the decoded chunk is appended to
  \<^verbatim>\<open>buf\<close>, the text is split at the blank line, the last piece goes back to \<^verbatim>\<open>buf\<close>
  and the others are handled. The streaming decoder is the identity on the bytes: a
  line feed is a single byte of its own in UTF-8, so the pieces are cut at the same
  places in the bytes as in the decoded text. (What the decoder does to a byte-order
  mark and to bytes that are not UTF-8 is not modelled.)
\<close>

definition SEP :: string where
  "SEP = [CHR 0x0A, CHR 0x0A]"

definition process_chunk ::
  "bool \<Rightarrow> (string \<Rightarrow> json option) \<Rightarrow> (json \<Rightarrow> string) \<Rightarrow> json \<Rightarrow> json \<Rightarrow> string \<Rightarrow>
   tap_state \<Rightarrow> tap_state" where
  "process_chunk logging parse stringify mdl msgCount v st =
     (let parts = js_split SEP (buf st @ v)
      in handle_parts logging parse stringify mdl msgCount (butlast parts)
           (st\<lparr>buf := last parts\<rparr>))"

text \<open>
  What \<^verbatim>\<open>reader.read()\<close> gives: a chunk, the end of the stream, or a rejection. The
  downstream side is the controller: the chunks enqueued so far and whether the stream
  is open, closed or errored. Cancellation by the consumer is not modelled.
\<close>

datatype read_result =
    Chunk string
  | Done
  | ReadError string

datatype stream_status =
    Open
  | Closed
  | Errored string

record clock =
  reqStart :: int
  doneNow :: int
  doneIso :: string

record run_state =
  tap :: tap_state
  forwarded :: "string list"
  dstatus :: stream_status
  ledger :: stats

definition usage_record :: "clock \<Rightarrow> json \<Rightarrow> json \<Rightarrow> tap_state \<Rightarrow> RequestRecord" where
  "usage_record clk mdl msgCount st =
     \<lparr>ts = doneIso clk, model = mdl, messages = msgCount,
      inputTokens = reqInputTokens st, outputTokens = reqOutputTokens st,
      cacheCreation = reqCacheCreation st, cacheRead = reqCacheRead st,
      durationMs = doneNow clk - reqStart clk, stopReason = reqStopReason st\<rparr>"

text \<open>
  The \<^verbatim>\<open>while (true)\<close> loop over the results of the successive reads. When the reads
  listed are used up the loop is waiting for the next one and the stream stays open.
\<close>

fun pump ::
  "bool \<Rightarrow> (string \<Rightarrow> json option) \<Rightarrow> (json \<Rightarrow> string) \<Rightarrow> clock \<Rightarrow> json \<Rightarrow> json \<Rightarrow>
   read_result list \<Rightarrow> run_state \<Rightarrow> run_state" where
  "pump logging parse stringify clk mdl msgCount [] s = s"
| "pump logging parse stringify clk mdl msgCount (Done # rs) s =
     s\<lparr>ledger :=
          recordRequest (usage_record clk mdl msgCount (tap s))
            ((ledger s)\<lparr>activeRequests := activeRequests (ledger s) - 1\<rparr>),
       dstatus := Closed\<rparr>"
| "pump logging parse stringify clk mdl msgCount (ReadError e # rs) s =
     s\<lparr>dstatus := Errored e\<rparr>"
| "pump logging parse stringify clk mdl msgCount (Chunk v # rs) s =
     pump logging parse stringify clk mdl msgCount rs
       (s\<lparr>forwarded := forwarded s @ [v],
          tap := process_chunk logging parse stringify mdl msgCount v (tap s)\<rparr>)"

definition interceptStream ::
  "bool \<Rightarrow> (string \<Rightarrow> json option) \<Rightarrow> (json \<Rightarrow> string) \<Rightarrow> clock \<Rightarrow>
   read_result list \<Rightarrow> json \<Rightarrow> json \<Rightarrow> stats \<Rightarrow> run_state" where
  "interceptStream logging parse stringify clk body mdl msgCount st =
     pump logging parse stringify clk mdl msgCount body
       \<lparr>tap = tap_init, forwarded = [], dstatus = Open,
        ledger = st\<lparr>activeRequests := activeRequests st + 1\<rparr>\<rparr>"

section \<open>The request body mutations of \<^verbatim>\<open>messagesRelay\<close>\<close>

text \<open>
  The request body is a JSON object. Each step returns the mutated body, or the
  exception that aborts the request: \<open>TypeError\<close> where JavaScript throws one (a
  property read on \<^verbatim>\<open>null\<close>, a call of something that is not a function, an
  assignment to a property of a primitive in module code, which is strict), and
  \<open>Rejection\<close> for an awaited promise that is rejected. \<open>Unmodelled\<close> marks the one
  thing a JSON value cannot hold: a named property assigned to an array.
\<close>

record config =
  CACHE_ENABLED :: bool
  MAX_TOKENS_OVERRIDE :: "int option"
  COMPACTION_ENABLED :: bool
  COMPACTION_TRIGGER :: int
  CLEAR_TOOLS_ENABLED :: bool
  WEB_FETCH_ENABLED :: bool
  THINKING_LOG_ENABLED :: bool

definition CC_SYSTEM :: string where
  "CC_SYSTEM = ''You are Claude Code, Anthropic'' @ [CHR 0x27] @ ''s official CLI for Claude.''"

definition bindE :: "js_error + 'a \<Rightarrow> ('a \<Rightarrow> js_error + 'b) \<Rightarrow> js_error + 'b" where
  "bindE r f = (case r of Inl e \<Rightarrow> Inl e | Inr x \<Rightarrow> f x)"

text \<open>\<^verbatim>\<open>Array.prototype.some\<close> with a callback that may throw: it stops at the first hit.\<close>

fun js_some :: "(json \<Rightarrow> js_error + bool) \<Rightarrow> json list \<Rightarrow> js_error + bool" where
  "js_some p [] = Inr False"
| "js_some p (x # xs) =
     (case p x of Inl e \<Rightarrow> Inl e | Inr hit \<Rightarrow> if hit then Inr True else js_some p xs)"

text \<open>
  \<^verbatim>\<open>v.includes(pat)\<close> on a value that is not nullish: substring test on a string,
  membership on an array, and a call of \<^verbatim>\<open>undefined\<close> on anything else.
\<close>

fun includes_json :: "json \<Rightarrow> string \<Rightarrow> js_error + bool" where
  "includes_json (JStr s) pat = Inr (includes_str s pat)"
| "includes_json (JArr ys) pat = Inr (JStr pat \<in> set ys)"
| "includes_json v pat = Inl TypeError"

text \<open>\<^verbatim>\<open>e.type === ty\<close> as the callback of \<^verbatim>\<open>some\<close>.\<close>

fun has_type :: "string \<Rightarrow> json \<Rightarrow> js_error + bool" where
  "has_type ty JNull = Inl TypeError"
| "has_type ty e = Inr (get ''type'' e = Some (JStr ty))"

subsection \<open>\<^verbatim>\<open>ensureSystem\<close>\<close>

definition text_block :: "string \<Rightarrow> json" where
  "text_block t = JObj [(''type'', JStr ''text''), (''text'', JStr t)]"

definition custom_block :: "string \<Rightarrow> json" where
  "custom_block t = JObj [(''type'', JStr ''text''), (''text'', JStr t), (''_proxy'', JBool True)]"

text \<open>\<^verbatim>\<open>b.type === "text" && b.text?.includes(CC_SYSTEM)\<close>\<close>

fun is_identity_block :: "json \<Rightarrow> js_error + bool" where
  "is_identity_block JNull = Inl TypeError"
| "is_identity_block b =
     (if get ''type'' b = Some (JStr ''text'') then
        (case get ''text'' b of
           None \<Rightarrow> Inr False
         | Some JNull \<Rightarrow> Inr False
         | Some t \<Rightarrow> includes_json t CC_SYSTEM)
      else Inr False)"

text \<open>\<^verbatim>\<open>b.type === "text" && b._proxy === true\<close>\<close>

fun is_custom_block :: "json \<Rightarrow> js_error + bool" where
  "is_custom_block JNull = Inl TypeError"
| "is_custom_block b =
     Inr (get ''type'' b = Some (JStr ''text'') \<and> get ''_proxy'' b = Some (JBool True))"

text \<open>
  \<open>custom\<close> is what \<^verbatim>\<open>getCustomSystem()\<close> returned; \<^verbatim>\<open>if (custom)\<close> holds for a
  string that is not empty.
\<close>

definition coerce_system :: "obj \<Rightarrow> obj" where
  "coerce_system body =
     (if \<not> truthy_opt (map_of body ''system'') then AList.update ''system'' (JArr []) body
      else (case map_of body ''system'' of
              Some (JStr s) \<Rightarrow> AList.update ''system'' (JArr [text_block s]) body
            | _ \<Rightarrow> body))"

fun add_custom :: "string option \<Rightarrow> json list \<Rightarrow> js_error + json list" where
  "add_custom None sys = Inr sys"
| "add_custom (Some c) sys =
     (if c = [] then Inr sys
      else bindE (js_some is_custom_block sys)
             (\<lambda>hasCustom. Inr (if hasCustom then sys else take 1 sys @ [custom_block c] @ drop 1 sys)))"

definition ensureSystem :: "string option \<Rightarrow> obj \<Rightarrow> js_error + obj" where
  "ensureSystem custom body =
     (let body1 = coerce_system body
      in case map_of body1 ''system'' of
           Some (JArr sys) \<Rightarrow>
             bindE (js_some is_identity_block sys)
               (\<lambda>hasAuth.
                  bindE (add_custom custom (if hasAuth then sys else text_block CC_SYSTEM # sys))
                    (\<lambda>sys'. Inr (AList.update ''system'' (JArr sys') body1)))
         | _ \<Rightarrow> Inl TypeError)"

subsection \<open>Model alias, internal markers\<close>

text \<open>\<^verbatim>\<open>if (body.model?.includes("[1m]")) body.model = body.model.replace("[1m]", "")\<close>\<close>

definition SUFFIX_1M :: string where
  "SUFFIX_1M = ''[1m]''"

definition stripModelSuffix :: "obj \<Rightarrow> js_error + obj" where
  "stripModelSuffix body =
     (case map_of body ''model'' of
        None \<Rightarrow> Inr body
      | Some JNull \<Rightarrow> Inr body
      | Some m \<Rightarrow>
          bindE (includes_json m SUFFIX_1M)
            (\<lambda>hit. if hit then
                      (case m of
                         JStr s \<Rightarrow> Inr (AList.update ''model'' (JStr (replace_first SUFFIX_1M [] s)) body)
                       | _ \<Rightarrow> Inl TypeError)
                    else Inr body))"

text \<open>\<^verbatim>\<open>for (const block of body.system) delete block._proxy\<close>\<close>

fun delete_proxy :: "json \<Rightarrow> js_error + json" where
  "delete_proxy JNull = Inl TypeError"
| "delete_proxy (JObj kvs) = Inr (JObj (AList.delete ''_proxy'' kvs))"
| "delete_proxy v = Inr v"

fun mapE :: "(json \<Rightarrow> js_error + json) \<Rightarrow> json list \<Rightarrow> js_error + json list" where
  "mapE f [] = Inr []"
| "mapE f (x # xs) = bindE (f x) (\<lambda>y. bindE (mapE f xs) (\<lambda>ys. Inr (y # ys)))"

definition stripMarkers :: "obj \<Rightarrow> js_error + obj" where
  "stripMarkers body =
     (case map_of body ''system'' of
        Some (JArr sys) \<Rightarrow>
          bindE (mapE delete_proxy sys) (\<lambda>sys'. Inr (AList.update ''system'' (JArr sys') body))
      | _ \<Rightarrow> Inr body)"

subsection \<open>Cache-control placement\<close>

definition MAX_CACHE_BLOCKS :: nat where
  "MAX_CACHE_BLOCKS = 4"

fun countCache :: "json \<Rightarrow> nat" where
  "countCache (JArr xs) = sum_list (map countCache xs)"
| "countCache (JObj kvs) =
     (if truthy_opt (map_of kvs ''cache_control'') then 1 else 0) +
     sum_list (map (\<lambda>kv. if truthy (snd kv) \<and> is_object (snd kv) then countCache (snd kv) else 0) kvs)"
| "countCache v = 0"

text \<open>What one property of an object adds to the count of the object.\<close>

definition child_count :: "string \<times> json \<Rightarrow> nat" where
  "child_count kv = (if truthy (snd kv) \<and> is_object (snd kv) then countCache (snd kv) else 0)"

fun countCache_opt :: "json option \<Rightarrow> nat" where
  "countCache_opt None = 0"
| "countCache_opt (Some v) = countCache v"

definition cacheTotal :: "obj \<Rightarrow> nat" where
  "cacheTotal body =
     countCache_opt (map_of body ''system'') + countCache_opt (map_of body ''messages'') +
     countCache_opt (map_of body ''tools'')"

definition ephemeral :: json where
  "ephemeral = JObj [(''type'', JStr ''ephemeral'')]"

text \<open>
  \<^verbatim>\<open>if (!arr[arr.length - 1].cache_control) arr[arr.length - 1].cache_control = {...}\<close>
  for the array under \<open>key\<close>, when it is a non-empty array; the flag tells whether the
  annotation was added.
\<close>

definition markLast :: "string \<Rightarrow> obj \<Rightarrow> js_error + (obj \<times> bool)" where
  "markLast key body =
     (case map_of body key of
        Some (JArr xs) \<Rightarrow>
          if xs = [] then Inr (body, False)
          else (case last xs of
                  JNull \<Rightarrow> Inl TypeError
                | JObj kvs \<Rightarrow>
                    if truthy_opt (map_of kvs ''cache_control'') then Inr (body, False)
                    else Inr (AList.update key
                                (JArr (butlast xs @ [JObj (AList.update ''cache_control'' ephemeral kvs)]))
                                body, True)
                | JArr ys \<Rightarrow> Inl Unmodelled
                | _ \<Rightarrow> Inl TypeError)
      | _ \<Rightarrow> Inr (body, False))"

definition placeCache :: "obj \<Rightarrow> js_error + obj" where
  "placeCache body =
     (let existing = cacheTotal body
      in bindE (if existing < MAX_CACHE_BLOCKS then markLast ''system'' body else Inr (body, False))
           (\<lambda>(body1, added).
              let existing1 = (if added then existing + 1 else existing)
              in bindE (if existing1 < MAX_CACHE_BLOCKS then markLast ''tools'' body1
                        else Inr (body1, False))
                   (\<lambda>(body2, added2). Inr body2)))"

subsection \<open>Output-size override, context management, web fetch\<close>

definition overrideMaxTokens :: "config \<Rightarrow> obj \<Rightarrow> obj" where
  "overrideMaxTokens cfg body =
     (case MAX_TOKENS_OVERRIDE cfg of
        None \<Rightarrow> body
      | Some n \<Rightarrow> if n \<noteq> 0 then AList.update ''max_tokens'' (JNum n) body else body)"

definition compact_edit :: "config \<Rightarrow> json" where
  "compact_edit cfg =
     JObj [(''type'', JStr ''compact_20260112''),
           (''trigger'', JObj [(''type'', JStr ''input_tokens''), (''value'', JNum (COMPACTION_TRIGGER cfg))])]"

definition clear_edit :: json where
  "clear_edit = JObj [(''type'', JStr ''clear_tool_uses_20250919'')]"

definition push_unless ::
  "bool \<Rightarrow> string \<Rightarrow> json \<Rightarrow> json list \<Rightarrow> js_error + json list" where
  "push_unless enabled ty item xs =
     (if enabled then bindE (js_some (has_type ty) xs) (\<lambda>hit. Inr (if hit then xs else xs @ [item]))
      else Inr xs)"

text \<open>\<^verbatim>\<open>(body.model ?? "").includes("opus")\<close>\<close>

definition isOpus :: "obj \<Rightarrow> js_error + bool" where
  "isOpus body = includes_json (nullish_or (map_of body ''model'') (JStr [])) ''opus''"

text \<open>\<^verbatim>\<open>if (!body.context_management) body.context_management = { edits: [] }\<close>\<close>

definition ensure_context_management :: "obj \<Rightarrow> obj" where
  "ensure_context_management body =
     (if \<not> truthy_opt (map_of body ''context_management'')
      then AList.update ''context_management'' (JObj [(''edits'', JArr [])]) body
      else body)"

text \<open>
  \<^verbatim>\<open>if (!Array.isArray(cm.edits)) cm.edits = []\<close> on the object \<open>cm\<close>, and the array
  \<^verbatim>\<open>cm.edits\<close> after it.
\<close>

definition ensure_edits :: "obj \<Rightarrow> obj" where
  "ensure_edits cm =
     (case map_of cm ''edits'' of
        Some (JArr es) \<Rightarrow> cm
      | _ \<Rightarrow> AList.update ''edits'' (JArr []) cm)"

definition edits_of :: "obj \<Rightarrow> json list" where
  "edits_of cm = (case map_of cm ''edits'' of Some (JArr es) \<Rightarrow> es | _ \<Rightarrow> [])"

definition add_edits :: "config \<Rightarrow> json list \<Rightarrow> js_error + json list" where
  "add_edits cfg edits =
     bindE (push_unless (COMPACTION_ENABLED cfg) ''compact_20260112'' (compact_edit cfg) edits)
       (\<lambda>es1. push_unless (CLEAR_TOOLS_ENABLED cfg) ''clear_tool_uses_20250919'' clear_edit es1)"

definition contextManagement :: "config \<Rightarrow> obj \<Rightarrow> js_error + obj" where
  "contextManagement cfg body =
     bindE (isOpus body)
       (\<lambda>opus.
          if \<not> opus then Inr body
          else
            (case map_of (ensure_context_management body) ''context_management'' of
               Some (JObj cm) \<Rightarrow>
                 bindE (add_edits cfg (edits_of (ensure_edits cm)))
                   (\<lambda>es. Inr (AList.update ''context_management''
                                (JObj (AList.update ''edits'' (JArr es) (ensure_edits cm)))
                                (ensure_context_management body)))
             | Some (JArr xs) \<Rightarrow> Inl Unmodelled
             | _ \<Rightarrow> Inl TypeError))"

definition web_fetch_tool :: json where
  "web_fetch_tool =
     JObj [(''type'', JStr ''web_fetch_20250910''), (''name'', JStr ''web_fetch''),
           (''max_uses'', JNum 5)]"

text \<open>\<^verbatim>\<open>if (!Array.isArray(body.tools)) body.tools = []\<close>, and the array after it.\<close>

definition ensure_tools :: "obj \<Rightarrow> obj" where
  "ensure_tools body =
     (case map_of body ''tools'' of
        Some (JArr tools) \<Rightarrow> body
      | _ \<Rightarrow> AList.update ''tools'' (JArr []) body)"

definition tools_of :: "obj \<Rightarrow> json list" where
  "tools_of body = (case map_of body ''tools'' of Some (JArr tools) \<Rightarrow> tools | _ \<Rightarrow> [])"

definition webFetch :: "config \<Rightarrow> obj \<Rightarrow> js_error + obj" where
  "webFetch cfg body =
     (if WEB_FETCH_ENABLED cfg then
        bindE (js_some (has_type ''web_fetch_20250910'') (tools_of (ensure_tools body)))
          (\<lambda>hit. Inr (if hit then ensure_tools body
                       else AList.update ''tools''
                              (JArr (tools_of (ensure_tools body) @ [web_fetch_tool]))
                              (ensure_tools body)))
      else Inr body)"

text \<open>
  The console line written before the request is sent evaluates
  \<^verbatim>\<open>body.context_management.edits.map((e) => e.type)\<close> when \<^verbatim>\<open>body.context_management\<close>
  is truthy, and so throws unless \<^verbatim>\<open>edits\<close> is an array without \<^verbatim>\<open>null\<close>.
\<close>

definition announce :: "obj \<Rightarrow> js_error + obj" where
  "announce body =
     (if truthy_opt (map_of body ''context_management'') then
        (case map_of body ''context_management'' of
           Some (JObj cm) \<Rightarrow>
             (case map_of cm ''edits'' of
                Some (JArr es) \<Rightarrow> if JNull \<in> set es then Inl TypeError else Inr body
              | _ \<Rightarrow> Inl TypeError)
         | _ \<Rightarrow> Inl TypeError)
      else Inr body)"

text \<open>
  The body that is serialised and sent upstream: lines 294 to 376 of
  \<^verbatim>\<open>messagesRelay\<close>, in order.
\<close>

definition mutateBody :: "config \<Rightarrow> string option \<Rightarrow> obj \<Rightarrow> js_error + obj" where
  "mutateBody cfg custom body =
     bindE (ensureSystem custom body)
       (\<lambda>b1. bindE (stripModelSuffix b1)
         (\<lambda>b2. bindE (stripMarkers b2)
           (\<lambda>b3. bindE (if CACHE_ENABLED cfg then placeCache b3 else Inr b3)
             (\<lambda>b4. bindE (contextManagement cfg (overrideMaxTokens cfg b4))
               (\<lambda>b5. bindE (webFetch cfg b5) announce)))))"

subsection \<open>The response body handed to the client\<close>











section \<open>The token lifecycle manager (\<^verbatim>\<open>auth.ts\<close>)\<close>

text \<open>
  \<^verbatim>\<open>getAccessToken\<close> and \<^verbatim>\<open>refreshToken\<close> are asynchronous: the code between two
  \<^verbatim>\<open>await\<close>s runs without interruption, and other callers run while a caller waits.
  The model is the state of the module (\<^verbatim>\<open>cached\<close>, \<^verbatim>\<open>refreshing\<close>, the
  \<^verbatim>\<open>AuthData\<close> objects and the promises created so far) and one step per
  uninterrupted piece of code. \<^verbatim>\<open>cached\<close> and the argument of \<^verbatim>\<open>refreshToken\<close>
  are references, so the objects live in a store and are updated in place. Promise
  reactions (the \<^verbatim>\<open>finally\<close> callback, the resumption after an \<^verbatim>\<open>await\<close> of a
  value that is already there) run before the next caller is served and belong to the
  step that triggers them.
\<close>

record AuthData =
  atype :: string
  access :: string
  refresh :: string
  expires :: int

definition EXPIRY_BUFFER_MS :: int where
  "EXPIRY_BUFFER_MS = 60000"

text \<open>The environment: \<^verbatim>\<open>CLAUDE_OAUTH_TOKEN\<close> and \<^verbatim>\<open>CLAUDE_OAUTH_REFRESH\<close>, empty when unset.\<close>

record auth_env =
  env_token :: string
  env_refresh :: string

datatype auth_error =
    NoRefreshToken
  | RefreshFailed int string
  | FetchRejected string
  | JsonRejected
  | WriteRejected
  | ReadRejected

datatype outcome =
    Token string
  | Failure auth_error

text \<open>
  A promise returned by \<^verbatim>\<open>refreshToken(...).finally(...)\<close>: waiting for the token
  endpoint, waiting for the credential file to be written, or settled. The number
  with a waiting promise is the address of the \<^verbatim>\<open>auth\<close> object the call holds.
\<close>

datatype phase =
    AwaitFetch nat
  | AwaitWrite nat
  | Settled outcome

record token_response =
  access_token :: string
  refresh_token :: string
  expires_in :: int

datatype fetch_reply =
    NetworkError string
  | HttpError int string
  | BadJson
  | Ok token_response

record auth_state =
  heap :: "AuthData list"
  cached :: "nat option"
  refreshing :: "nat option"
  promises :: "phase list"
  pending_reads :: "nat list"
  next_read :: nat
  net_calls :: nat

text \<open>
  What happens: a caller invokes \<^verbatim>\<open>getAccessToken\<close> at clock reading \<open>now\<close>; the
  \<^verbatim>\<open>readAuth\<close> a caller waits for ends (with the parsed file, or a rejection); the
  \<^verbatim>\<open>fetch\<close> of a refresh ends; its \<^verbatim>\<open>writeFile\<close> ends.
\<close>

datatype event =
    Call int
  | ReadDone nat "AuthData option" int
  | FetchDone nat fetch_reply int
  | WriteDone nat bool

text \<open>
  What the caller has in hand after the step: the token, a rejection, the promise it
  awaits, or the ticket of the file read it waits for.
\<close>

datatype reply =
    Ready string
  | Rejected auth_error
  | Wait nat
  | Reading nat
  | NoReply

definition initFromEnv :: "auth_env \<Rightarrow> int \<Rightarrow> AuthData option" where
  "initFromEnv env now =
     (if env_token env = [] then None
      else Some \<lparr>atype = ''oauth'', access = env_token env, refresh = env_refresh env,
                 expires = now + 3600000\<rparr>)"

text \<open>
  The call \<^verbatim>\<open>refreshToken(cached).finally(() => { refreshing = null; })\<close> up to its
  first \<^verbatim>\<open>await\<close>. Without a refresh token the function throws before \<^verbatim>\<open>fetch\<close>: the
  promise is rejected at once and the \<^verbatim>\<open>finally\<close> callback has emptied the slot when
  the step ends.
\<close>

definition start_refresh :: "nat \<Rightarrow> auth_state \<Rightarrow> auth_state \<times> reply" where
  "start_refresh a s =
     (let pid = length (promises s)
      in if refresh (heap s ! a) = []
         then (s\<lparr>promises := promises s @ [Settled (Failure NoRefreshToken)], refreshing := None\<rparr>,
               Wait pid)
         else (s\<lparr>promises := promises s @ [AwaitFetch a], refreshing := Some pid,
                 net_calls := net_calls s + 1\<rparr>,
               Wait pid))"

text \<open>\<^verbatim>\<open>getAccessToken\<close> from the validity test on, with \<open>a\<close> the object \<^verbatim>\<open>cached\<close> refers to.\<close>

definition check_token :: "int \<Rightarrow> nat \<Rightarrow> auth_state \<Rightarrow> auth_state \<times> reply" where
  "check_token now a s =
     (if now < expires (heap s ! a) - EXPIRY_BUFFER_MS then (s, Ready (access (heap s ! a)))
      else (case refreshing s of
              None \<Rightarrow> start_refresh a s
            | Some pid \<Rightarrow> (s, Wait pid)))"

definition settle :: "nat \<Rightarrow> outcome \<Rightarrow> auth_state \<Rightarrow> auth_state" where
  "settle pid out s = s\<lparr>promises := (promises s)[pid := Settled out], refreshing := None\<rparr>"

definition apply_response :: "token_response \<Rightarrow> int \<Rightarrow> AuthData \<Rightarrow> AuthData" where
  "apply_response d now auth =
     auth\<lparr>access := access_token d,
          refresh := (if refresh_token d \<noteq> [] then refresh_token d else refresh auth),
          expires := now + expires_in d * 1000\<rparr>"

fun step :: "auth_env \<Rightarrow> event \<Rightarrow> auth_state \<Rightarrow> auth_state \<times> reply" where
  "step env (Call now) s =
     (case cached s of
        Some a \<Rightarrow> check_token now a s
      | None \<Rightarrow>
          (case initFromEnv env now of
             Some auth \<Rightarrow>
               check_token now (length (heap s))
                 (s\<lparr>heap := heap s @ [auth], cached := Some (length (heap s))\<rparr>)
           | None \<Rightarrow>
               (s\<lparr>pending_reads := pending_reads s @ [next_read s], next_read := next_read s + 1\<rparr>,
                Reading (next_read s))))"
| "step env (ReadDone rid file now) s =
     (if rid \<in> set (pending_reads s) then
        (let s1 = s\<lparr>pending_reads := removeAll rid (pending_reads s)\<rparr>
         in case file of
              None \<Rightarrow> (s1, Rejected ReadRejected)
            | Some auth \<Rightarrow>
                check_token now (length (heap s1))
                  (s1\<lparr>heap := heap s1 @ [auth], cached := Some (length (heap s1))\<rparr>))
      else (s, NoReply))"
| "step env (FetchDone pid r now) s =
     (if pid < length (promises s) then
        (case promises s ! pid of
           AwaitFetch a \<Rightarrow>
             (case r of
                NetworkError m \<Rightarrow> (settle pid (Failure (FetchRejected m)) s, NoReply)
              | HttpError code txt \<Rightarrow> (settle pid (Failure (RefreshFailed code txt)) s, NoReply)
              | BadJson \<Rightarrow> (settle pid (Failure JsonRejected) s, NoReply)
              | Ok d \<Rightarrow>
                  (let s1 = s\<lparr>heap := (heap s)[a := apply_response d now (heap s ! a)]\<rparr>
                   in if env_token env \<noteq> []
                      then (settle pid (Token (access (heap s1 ! a))) (s1\<lparr>cached := Some a\<rparr>), NoReply)
                      else (s1\<lparr>promises := (promises s1)[pid := AwaitWrite a]\<rparr>, NoReply)))
         | _ \<Rightarrow> (s, NoReply))
      else (s, NoReply))"
| "step env (WriteDone pid ok) s =
     (if pid < length (promises s) then
        (case promises s ! pid of
           AwaitWrite a \<Rightarrow>
             (if ok then (settle pid (Token (access (heap s ! a))) (s\<lparr>cached := Some a\<rparr>), NoReply)
              else (settle pid (Failure WriteRejected) s, NoReply))
         | _ \<Rightarrow> (s, NoReply))
      else (s, NoReply))"

text \<open>A schedule, with the reply of each step in order.\<close>

fun run :: "auth_env \<Rightarrow> event list \<Rightarrow> auth_state \<Rightarrow> auth_state \<times> reply list" where
  "run env [] s = (s, [])"
| "run env (e # es) s =
     (let (s1, r) = step env e s; (s2, rs) = run env es s1 in (s2, r # rs))"

text \<open>What a caller holding reply \<open>r\<close> has received in state \<open>s\<close>, if anything yet.\<close>

fun received :: "auth_state \<Rightarrow> reply \<Rightarrow> outcome option" where
  "received s (Ready tok) = Some (Token tok)"
| "received s (Rejected e) = Some (Failure e)"
| "received s (Wait pid) =
     (if pid < length (promises s)
      then (case promises s ! pid of Settled out \<Rightarrow> Some out | _ \<Rightarrow> None)
      else None)"
| "received s (Reading rid) = None"
| "received s NoReply = None"

definition auth_init :: auth_state where
  "auth_init =
     \<lparr>heap = [], cached = None, refreshing = None, promises = [], pending_reads = [],
      next_read = 0, net_calls = 0\<rparr>"

text \<open>Promise \<open>p\<close> exists in state \<open>s\<close> and is settled with \<open>out\<close>.\<close>

definition settled_at :: "auth_state \<Rightarrow> nat \<Rightarrow> outcome \<Rightarrow> bool" where
  "settled_at s p out = (p < length (promises s) \<and> promises s ! p = Settled out)"

section \<open>Concrete inputs\<close>

text \<open>
  Inputs on which the theorems below are run. \<open>ex_parse\<close> is \<^verbatim>\<open>JSON.parse\<close> on the
  payloads used here: it gives the value of each of the three payload texts and
  rejects every other text used (none of them is JSON).
\<close>

definition ex_start_text :: string where
  \<open>ex_start_text =
     ''{"type":"message_start","message":{"usage":{"input_tokens":100,"cache_read_input_tokens":20}}}''\<close>

definition ex_start :: json where
  "ex_start =
     JObj [(''type'', JStr ''message_start''),
           (''message'', JObj [(''usage'',
              JObj [(''input_tokens'', JNum 100), (''cache_read_input_tokens'', JNum 20)])])]"

definition ex_text_text :: string where
  \<open>ex_text_text = ''{"type":"content_block_delta","delta":{"type":"text_delta","text":"ab"}}''\<close>

definition ex_text :: json where
  "ex_text =
     JObj [(''type'', JStr ''content_block_delta''),
           (''delta'', JObj [(''type'', JStr ''text_delta''), (''text'', JStr ''ab'')])]"

definition ex_delta_text :: string where
  \<open>ex_delta_text =
     ''{"type":"message_delta","delta":{"stop_reason":"end_turn"},"usage":{"output_tokens":7}}''\<close>

definition ex_delta :: json where
  "ex_delta =
     JObj [(''type'', JStr ''message_delta''),
           (''delta'', JObj [(''stop_reason'', JStr ''end_turn'')]),
           (''usage'', JObj [(''output_tokens'', JNum 7)])]"

definition ex_parse :: "string \<Rightarrow> json option" where
  "ex_parse = map_of [(ex_start_text, ex_start), (ex_text_text, ex_text), (ex_delta_text, ex_delta)]"

text \<open>
  None of the inputs closes a tool block, so \<^verbatim>\<open>JSON.stringify\<close> is never called on
  them; \<open>ex_stringify\<close> fills the parameter.
\<close>

definition ex_stringify :: "json \<Rightarrow> string" where
  "ex_stringify v = ''null''"

definition ex_clock :: clock where
  "ex_clock = \<lparr>reqStart = 1000, doneNow = 1250, doneIso = ''2026-01-01T00:00:01.250Z''\<rparr>"

definition ex_cfg :: config where
  "ex_cfg =
     \<lparr>CACHE_ENABLED = True, MAX_TOKENS_OVERRIDE = None, COMPACTION_ENABLED = True,
      COMPACTION_TRIGGER = 800000, CLEAR_TOOLS_ENABLED = True, WEB_FETCH_ENABLED = True,
      THINKING_LOG_ENABLED = True\<rparr>"

definition ex_rec :: "int \<Rightarrow> RequestRecord" where
  "ex_rec n =
     \<lparr>ts = ''t'', model = JStr ''m'', messages = JNum 1, inputTokens = n, outputTokens = JNum 1,
      cacheCreation = JNum 0, cacheRead = JNum 0, durationMs = 5, stopReason = JStr ''end_turn''\<rparr>"

text \<open>
  A stream of three frames, cut in the middle of the first separator, in the middle
  of the second frame and in the middle of the last payload; and the same stream
  without the last frame's separator.
\<close>

definition ex_chunks :: "string list" where
  "ex_chunks =
     [''event: message_start'' @ [CHR 0x0A] @ ''data: '' @ ex_start_text @ [CHR 0x0A],
      [CHR 0x0A] @ ''data: '' @ take 30 ex_text_text,
      drop 30 ex_text_text @ [CHR 0x0A, CHR 0x0A] @ ''data: '' @ take 10 ex_delta_text,
      drop 10 ex_delta_text @ [CHR 0x0A, CHR 0x0A]]"

definition ex_chunks_open :: "string list" where
  "ex_chunks_open =
     [''data: '' @ ex_start_text @ [CHR 0x0A, CHR 0x0A] @ ''data: '',
      ex_delta_text]"




text \<open>
  A request for the extended-context alias of a model and the body sent for it, and a
  request whose model identifier holds the suffix twice.
\<close>

definition ex_body_opus :: obj where
  "ex_body_opus = [(''model'', JStr ''claude-opus-4-6[1m]''), (''messages'', JArr [])]"

definition ex_sent_opus :: obj where
  "ex_sent_opus =
     [(''model'', JStr ''claude-opus-4-6''), (''messages'', JArr []),
      (''system'', JArr [JObj [(''type'', JStr ''text''), (''text'', JStr CC_SYSTEM),
                               (''cache_control'', ephemeral)]]),
      (''context_management'', JObj [(''edits'', JArr [compact_edit ex_cfg, clear_edit])]),
      (''tools'', JArr [web_fetch_tool])]"

definition ex_body_twice :: obj where
  "ex_body_twice = [(''model'', JStr ''a[1m]b[1m]''), (''messages'', JArr [])]"

definition ex_sent_twice :: obj where
  "ex_sent_twice =
     [(''model'', JStr ''ab[1m]''), (''messages'', JArr []),
      (''system'', JArr [JObj [(''type'', JStr ''text''), (''text'', JStr CC_SYSTEM),
                               (''cache_control'', ephemeral)]]),
      (''tools'', JArr [web_fetch_tool])]"

text \<open>
  A body that arrives with five annotated system blocks, and a body with three
  annotated message blocks, an unannotated system block and an unannotated tool,
  with what the placement makes of it and what is sent upstream for it.
\<close>

definition ex_annotated :: "string \<Rightarrow> json" where
  "ex_annotated t = JObj [(''type'', JStr ''text''), (''text'', JStr t), (''cache_control'', ephemeral)]"

definition ex_body_five :: obj where
  "ex_body_five =
     [(''system'', JArr [ex_annotated CC_SYSTEM, ex_annotated ''a'', ex_annotated ''b'',
                         ex_annotated ''c'', ex_annotated ''d'']),
      (''messages'', JArr [])]"

definition ex_body_three :: obj where
  "ex_body_three =
     [(''system'', JArr [text_block CC_SYSTEM]),
      (''messages'', JArr [JObj [(''role'', JStr ''user''),
         (''content'', JArr [ex_annotated ''a'', ex_annotated ''b'', ex_annotated ''c''])]]),
      (''tools'', JArr [JObj [(''name'', JStr ''bash'')]])]"

definition ex_placed_three :: obj where
  "ex_placed_three =
     [(''system'', JArr [ex_annotated CC_SYSTEM]),
      (''messages'', JArr [JObj [(''role'', JStr ''user''),
         (''content'', JArr [ex_annotated ''a'', ex_annotated ''b'', ex_annotated ''c''])]]),
      (''tools'', JArr [JObj [(''name'', JStr ''bash'')]])]"

definition ex_sent_three :: obj where
  "ex_sent_three =
     [(''system'', JArr [ex_annotated CC_SYSTEM]),
      (''messages'', JArr [JObj [(''role'', JStr ''user''),
         (''content'', JArr [ex_annotated ''a'', ex_annotated ''b'', ex_annotated ''c''])]]),
      (''tools'', JArr [JObj [(''name'', JStr ''bash'')], web_fetch_tool])]"

text \<open>
  A body whose system list is the identity block alone, and what \<open>ensureSystem\<close>
  makes of it when a custom prompt is configured.
\<close>

definition ex_body_identity :: obj where
  "ex_body_identity = [(''system'', JArr [text_block CC_SYSTEM]), (''messages'', JArr [])]"

definition ex_body_marked :: obj where
  "ex_body_marked =
     [(''system'', JArr [text_block CC_SYSTEM, custom_block ''Be terse.'']), (''messages'', JArr [])]"

text \<open>
  A credential loaded from the file that expired at clock reading 1000, with a
  refresh token; the token endpoint's answer; and an environment that supplies an
  access token and no refresh token.
\<close>

definition ex_env_file :: auth_env where
  "ex_env_file = \<lparr>env_token = [], env_refresh = []\<rparr>"

definition ex_auth :: auth_state where
  "ex_auth =
     \<lparr>heap = [\<lparr>atype = ''oauth'', access = ''old'', refresh = ''r1'', expires = 1000\<rparr>],
      cached = Some 0, refreshing = None, promises = [], pending_reads = [], next_read = 0,
      net_calls = 0\<rparr>"

definition ex_response :: token_response where
  "ex_response = \<lparr>access_token = ''new'', refresh_token = ''r2'', expires_in = 3600\<rparr>"

definition ex_env_static :: auth_env where
  "ex_env_static = \<lparr>env_token = ''tok'', env_refresh = []\<rparr>"

section \<open>The ledger's ring buffer\<close>

lemma unshift_pop_take:
  assumes "length xs \<le> n"
  shows "(if length (r # xs) > n then butlast (r # xs) else r # xs) = take n (r # xs)"
proof (cases "length (r # xs) > n")
  case True
  with assms have "length (r # xs) - 1 = n" by simp
  then have "butlast (r # xs) = take n (r # xs)"
    by (metis butlast_conv_take)
  with True show ?thesis by simp
next
  case False
  then show ?thesis by simp
qed

lemma recent_recordRequest:
  "length (recentRequests st) \<le> MAX_RECENT \<Longrightarrow>
   recentRequests (recordRequest r st) = take MAX_RECENT (r # recentRequests st)"
  using unshift_pop_take [of "recentRequests st" MAX_RECENT r]
  by (simp add: recordRequest_def Let_def)

lemma recent_recordRequest_length:
  "length (recentRequests st) \<le> MAX_RECENT \<Longrightarrow>
   length (recentRequests (recordRequest r st)) \<le> MAX_RECENT"
  by (simp add: recent_recordRequest)

lemma recent_recordRequest_first: "recentRequests (recordRequest r st) ! 0 = r"
  by (simp add: recordRequest_def Let_def nth_butlast MAX_RECENT_def)


lemma record_all_length:
  "length (recentRequests st) \<le> MAX_RECENT \<Longrightarrow>
   length (recentRequests (record_all rs st)) \<le> MAX_RECENT"
  by (induction rs arbitrary: st) (simp_all add: recent_recordRequest_length)

lemma record_all_snoc: "record_all (rs @ [r]) st = recordRequest r (record_all rs st)"
  by (induction rs arbitrary: st) simp_all

lemma take_append_take: "take n (xs @ take n ys) = take n (xs @ ys)"
  by (simp add: min_def)

lemma record_all_recent:
  "length (recentRequests st) \<le> MAX_RECENT \<Longrightarrow>
   recentRequests (record_all rs st) = take MAX_RECENT (rev rs @ recentRequests st)"
proof (induction rs arbitrary: st)
  case Nil
  then show ?case by simp
next
  case (Cons r rs)
  have "recentRequests (record_all (r # rs) st) =
        take MAX_RECENT (rev rs @ recentRequests (recordRequest r st))"
    using Cons.IH [of "recordRequest r st"] Cons.prems by (simp add: recent_recordRequest_length)
  also have "\<dots> = take MAX_RECENT (rev rs @ take MAX_RECENT (r # recentRequests st))"
    using Cons.prems by (simp add: recent_recordRequest)
  also have "\<dots> = take MAX_RECENT (rev rs @ (r # recentRequests st))"
    by (rule take_append_take)
  finally show ?case by simp
qed

text \<open>
  Claim C8. Whatever records are passed to \<open>recordRequest\<close>, in whatever number, on a
  ledger whose list of recent requests holds at most 20 entries (it is empty when the
  process starts): afterwards the list still holds at most 20 entries and the entry
  at position 0 is the record passed last. The list is the 20 newest records, newest
  first.
\<close>

theorem ledger_ring_buffer:
  "length (recentRequests st) \<le> 20 \<Longrightarrow>
   length (recentRequests (record_all (rs @ [r]) st)) \<le> 20 \<and>
   recentRequests (record_all (rs @ [r]) st) ! 0 = r \<and>
   recentRequests (record_all (rs @ [r]) st) = take 20 (r # rev rs @ recentRequests st)"
  using record_all_length [of st "rs @ [r]"] record_all_recent [of st "rs @ [r]"]
  by (simp add: record_all_snoc recent_recordRequest_first MAX_RECENT_def)

theorem ledger_ring_buffer_witness:
  "length (recentRequests stats_init) \<le> 20 \<and>
   length (recentRequests (record_all (map ex_rec [1 .. 24] @ [ex_rec 25]) stats_init)) \<le> 20 \<and>
   recentRequests (record_all (map ex_rec [1 .. 24] @ [ex_rec 25]) stats_init) ! 0 = ex_rec 25"
  using ledger_ring_buffer [of stats_init "map ex_rec [1 .. 24]" "ex_rec 25"]
  by (simp add: stats_init_def)

section \<open>The interceptor: what is forwarded, what is recorded\<close>

lemma pump_append_chunks:
  "pump lg pa sf clk mdl mc (map Chunk cs @ rs) s =
   pump lg pa sf clk mdl mc rs (pump lg pa sf clk mdl mc (map Chunk cs) s)"
  by (induction cs arbitrary: s) simp_all

lemma pump_chunks_forwarded:
  "forwarded (pump lg pa sf clk mdl mc (map Chunk cs) s) = forwarded s @ cs"
  by (induction cs arbitrary: s) simp_all

lemma pump_chunks_dstatus:
  "dstatus (pump lg pa sf clk mdl mc (map Chunk cs) s) = dstatus s"
  by (induction cs arbitrary: s) simp_all

lemma pump_chunks_ledger:
  "ledger (pump lg pa sf clk mdl mc (map Chunk cs) s) = ledger s"
  by (induction cs arbitrary: s) simp_all

text \<open>
  Claim C1. For every list of chunks read from upstream, wherever the chunk
  boundaries fall, and for every behaviour of \<^verbatim>\<open>JSON.parse\<close> and \<^verbatim>\<open>JSON.stringify\<close>
  (the parameters \<open>pa\<close> and \<open>sf\<close>, so also when parsing fails on every frame):
  the chunks enqueued downstream are the chunks read, one for one, so their
  concatenation is the concatenation of the input. This holds when the stream ends
  (it is then closed), while it is still open, and when a read fails after the chunks.
\<close>

theorem forwarded_bytes_identical:
  "concat (forwarded (interceptStream lg pa sf clk (map Chunk cs @ [Done]) mdl mc st)) = concat cs \<and>
   forwarded (interceptStream lg pa sf clk (map Chunk cs @ [Done]) mdl mc st) = cs \<and>
   dstatus (interceptStream lg pa sf clk (map Chunk cs @ [Done]) mdl mc st) = Closed \<and>
   forwarded (interceptStream lg pa sf clk (map Chunk cs) mdl mc st) = cs \<and>
   forwarded (interceptStream lg pa sf clk (map Chunk cs @ ReadError e # rest) mdl mc st) = cs"
  using pump_chunks_forwarded [of lg pa sf clk mdl mc cs]
  by (simp add: interceptStream_def pump_append_chunks)

theorem forwarded_bytes_identical_witness:
  "concat (forwarded (interceptStream True ex_parse ex_stringify ex_clock
             (map Chunk ex_chunks @ [Done]) (JStr ''m'') (JNum 1) stats_init)) = concat ex_chunks \<and>
   concat (forwarded (interceptStream True (\<lambda>t. None) ex_stringify ex_clock
             (map Chunk ex_chunks @ [Done]) (JStr ''m'') (JNum 1) stats_init)) = concat ex_chunks"
  using forwarded_bytes_identical [of True ex_parse ex_stringify ex_clock ex_chunks "JStr ''m''"
      "JNum 1" stats_init]
    forwarded_bytes_identical [of True "\<lambda>t. None" ex_stringify ex_clock ex_chunks "JStr ''m''"
      "JNum 1" stats_init]
  by simp

text \<open>
  Claim C7. When a read of the upstream body fails, after any number of chunks, the
  downstream stream is put in the errored state with that error, and the ledger gets
  no usage record: its list of recent requests and its totals are what they were
  before the request. (Only the in-flight counter differs, see C10.)
\<close>

theorem read_failure_no_record:
  "dstatus (interceptStream lg pa sf clk (map Chunk cs @ ReadError e # rest) mdl mc st) = Errored e \<and>
   recentRequests (ledger (interceptStream lg pa sf clk (map Chunk cs @ ReadError e # rest) mdl mc st))
     = recentRequests st \<and>
   totalRequests (ledger (interceptStream lg pa sf clk (map Chunk cs @ ReadError e # rest) mdl mc st))
     = totalRequests st \<and>
   ledger (interceptStream lg pa sf clk (map Chunk cs @ ReadError e # rest) mdl mc st)
     = st\<lparr>activeRequests := activeRequests st + 1\<rparr>"
  by (simp add: interceptStream_def pump_append_chunks pump_chunks_ledger pump_chunks_dstatus)

theorem read_failure_no_record_witness:
  "dstatus (interceptStream True ex_parse ex_stringify ex_clock
      (map Chunk ex_chunks @ ReadError ''socket closed'' # []) (JStr ''m'') (JNum 1) stats_init)
     = Errored ''socket closed'' \<and>
   recentRequests (ledger (interceptStream True ex_parse ex_stringify ex_clock
      (map Chunk ex_chunks @ ReadError ''socket closed'' # []) (JStr ''m'') (JNum 1) stats_init)) = [] \<and>
   totalRequests (ledger (interceptStream True ex_parse ex_stringify ex_clock
      (map Chunk ex_chunks @ ReadError ''socket closed'' # []) (JStr ''m'') (JNum 1) stats_init)) = 0"
  using read_failure_no_record [of True ex_parse ex_stringify ex_clock ex_chunks "''socket closed''" "[]"
      "JStr ''m''" "JNum 1" stats_init]
  by (simp add: stats_init_def)

text \<open>
  Claim C10. \<open>interceptStream\<close> adds one to \<open>activeRequests\<close> when it is called. While
  chunks arrive the counter keeps that value; the end of the stream takes the one
  away again; a failed read does not, and nothing runs for the request after it, so
  the counter stays one above its value before the request.
\<close>

theorem active_requests_leak:
  "activeRequests (ledger (interceptStream lg pa sf clk (map Chunk cs) mdl mc st))
     = activeRequests st + 1 \<and>
   activeRequests (ledger (interceptStream lg pa sf clk (map Chunk cs @ Done # rest) mdl mc st))
     = activeRequests st \<and>
   activeRequests (ledger (interceptStream lg pa sf clk (map Chunk cs @ ReadError e # rest) mdl mc st))
     = activeRequests st + 1"
  by (simp add: interceptStream_def pump_append_chunks pump_chunks_ledger recordRequest_def Let_def)

theorem active_requests_leak_witness:
  "activeRequests (ledger (interceptStream True ex_parse ex_stringify ex_clock
      (map Chunk ex_chunks @ Done # []) (JStr ''m'') (JNum 1) stats_init)) = 0 \<and>
   activeRequests (ledger (interceptStream True ex_parse ex_stringify ex_clock
      (map Chunk ex_chunks @ ReadError ''socket closed'' # []) (JStr ''m'') (JNum 1) stats_init)) = 1"
  using active_requests_leak [of True ex_parse ex_stringify ex_clock ex_chunks "JStr ''m''" "JNum 1"
      stats_init "[]" "''socket closed''"]
  by (simp add: stats_init_def)

section \<open>The frame parser and the chunk boundaries\<close>


lemma take_eq_length_le:
  assumes "take (length s) xs = s"
  shows "length s \<le> length xs"
proof -
  have "length (take (length s) xs) = length s" using assms by simp
  then show ?thesis by simp
qed

lemma js_split_nonempty: "js_split sep s \<noteq> []"
  by (induction sep s rule: js_split.induct) (auto split: list.splits)

lemma js_split_short: "length s < length sep \<Longrightarrow> js_split sep s = [s]"
  by (induction sep s rule: js_split.induct) (auto split: list.splits)

lemma js_split_single: "js_split sep s = [p] \<Longrightarrow> p = s"
  by (induction sep s arbitrary: p rule: js_split.induct) (auto split: list.splits if_splits simp: js_split_nonempty)

lemma take_prefix_append: "n \<le> length xs \<Longrightarrow> take n (xs @ ys) = take n xs"
  by simp

lemma drop_prefix_append: "n \<le> length xs \<Longrightarrow> drop n (xs @ ys) = drop n xs @ ys"
  by simp

lemma js_split_match:
  "sep \<noteq> [] \<Longrightarrow> take (length sep) xs = sep \<Longrightarrow>
   js_split sep xs = [] # js_split sep (drop (length sep) xs)"
  by (cases xs) auto

lemma js_split_nomatch:
  "\<not> (sep \<noteq> [] \<and> take (length sep) (c # cs) = sep) \<Longrightarrow>
   js_split sep (c # cs) = (case js_split sep cs of [] \<Rightarrow> [[c]] | p # ps \<Rightarrow> (c # p) # ps)"
  by auto

lemma js_split_append:
  "js_split sep (xs @ ys) =
   butlast (js_split sep xs) @ js_split sep (last (js_split sep xs) @ ys)"
proof (induction sep xs rule: js_split.induct)
  case (1 sep)
  show ?case by simp
next
  case (2 sep c cs)
  show ?case
  proof (cases "sep \<noteq> [] \<and> take (length sep) (c # cs) = sep")
    case True
    then have len: "length sep \<le> length (c # cs)"
      by (rule_tac take_eq_length_le) simp
    have pre: "take (length sep) ((c # cs) @ ys) = sep"
      using take_prefix_append [OF len, of ys] True by metis
    have dr: "drop (length sep) ((c # cs) @ ys) = drop (length sep) (c # cs) @ ys"
      by (rule drop_prefix_append [OF len])
    have "js_split sep ((c # cs) @ ys) = [] # js_split sep (drop (length sep) (c # cs) @ ys)"
      using js_split_match [of sep "(c # cs) @ ys"] True pre dr by metis
    also have "\<dots> = [] # (butlast (js_split sep (drop (length sep) (c # cs))) @
        js_split sep (last (js_split sep (drop (length sep) (c # cs))) @ ys))"
      using "2.IH"(1) True by simp
    finally show ?thesis using True by (simp add: js_split_nonempty)
  next
    case False
    obtain p ps where sp: "js_split sep cs = p # ps"
      using js_split_nonempty [of sep cs] by (cases "js_split sep cs") auto
    have lhs: "js_split sep (c # cs) = (c # p) # ps" using False sp by simp
    show ?thesis
    proof (cases ps)
      case Nil
      then have "p = cs" using sp js_split_single by blast
      then show ?thesis using lhs Nil by simp
    next
      case (Cons q qs)
      have "\<not> length cs < length sep" using sp Cons js_split_short [of cs sep] by auto
      then have len: "length sep \<le> length (c # cs)" by simp
      have "take (length sep) ((c # cs) @ ys) = take (length sep) (c # cs)"
        by (rule take_prefix_append [OF len])
      then have nopre: "\<not> (sep \<noteq> [] \<and> take (length sep) (c # (cs @ ys)) = sep)" using False by simp
      have ih: "js_split sep (cs @ ys) = butlast (p # ps) @ js_split sep (last (p # ps) @ ys)"
        using "2.IH"(2) False sp by simp
      have "js_split sep (c # (cs @ ys)) = (case js_split sep (cs @ ys) of [] \<Rightarrow> [[c]] | p # ps \<Rightarrow> (c # p) # ps)"
        using nopre by (rule js_split_nomatch)
      also have "\<dots> = (c # p) # butlast ps @ js_split sep (last ps @ ys)"
        using ih Cons by simp
      finally show ?thesis using lhs Cons by simp
    qed
  qed
qed


lemma log_line_buf: "log_line lg e (st\<lparr>buf := b\<rparr>) = (log_line lg e st)\<lparr>buf := b\<rparr>"
  by (simp add: log_line_def)

lemma on_message_start_buf:
  "on_message_start lg mdl mc d (st\<lparr>buf := b\<rparr>) = (on_message_start lg mdl mc d st)\<lparr>buf := b\<rparr>"
  by (simp add: on_message_start_def Let_def log_line_def)

lemma on_content_block_start_buf:
  "on_content_block_start lg d (st\<lparr>buf := b\<rparr>) = (on_content_block_start lg d st)\<lparr>buf := b\<rparr>"
  by (simp add: on_content_block_start_def Let_def log_line_def)

lemma on_content_block_delta_buf:
  "on_content_block_delta lg d (st\<lparr>buf := b\<rparr>) = (on_content_block_delta lg d st)\<lparr>buf := b\<rparr>"
  by (simp add: on_content_block_delta_def Let_def log_line_def)

lemma on_content_block_stop_buf:
  "on_content_block_stop lg pa sf (st\<lparr>buf := b\<rparr>) = (on_content_block_stop lg pa sf st)\<lparr>buf := b\<rparr>"
  by (simp add: on_content_block_stop_def Let_def log_line_def split: option.splits)

lemma on_message_delta_buf:
  "on_message_delta lg d (st\<lparr>buf := b\<rparr>) = (on_message_delta lg d st)\<lparr>buf := b\<rparr>"
  by (simp add: on_message_delta_def Let_def log_line_def split: option.splits)

lemma handle_event_buf:
  "handle_event lg pa sf mdl mc d (st\<lparr>buf := b\<rparr>) = (handle_event lg pa sf mdl mc d st)\<lparr>buf := b\<rparr>"
  by (simp add: handle_event_def Let_def on_message_start_buf on_content_block_start_buf
      on_content_block_delta_buf on_content_block_stop_buf on_message_delta_buf)

lemma handle_part_buf:
  "handle_part lg pa sf mdl mc p (st\<lparr>buf := b\<rparr>) = (handle_part lg pa sf mdl mc p st)\<lparr>buf := b\<rparr>"
  by (simp add: handle_part_def handle_event_buf split: option.splits)

lemma handle_parts_buf:
  "handle_parts lg pa sf mdl mc ps (st\<lparr>buf := b\<rparr>) = (handle_parts lg pa sf mdl mc ps st)\<lparr>buf := b\<rparr>"
  by (induction ps arbitrary: st) (simp_all add: handle_part_buf)

lemma handle_parts_append:
  "handle_parts lg pa sf mdl mc (ps @ qs) st =
   handle_parts lg pa sf mdl mc qs (handle_parts lg pa sf mdl mc ps st)"
  by (induction ps arbitrary: st) simp_all

lemma pump_chunks_snoc:
  "pump lg pa sf clk mdl mc (map Chunk cs @ [Chunk v]) s =
   (let s' = pump lg pa sf clk mdl mc (map Chunk cs) s
    in s'\<lparr>forwarded := forwarded s' @ [v], tap := process_chunk lg pa sf mdl mc v (tap s')\<rparr>)"
  using pump_append_chunks [of lg pa sf clk mdl mc cs "[Chunk v]" s] by (simp add: Let_def)

lemma tap_after_chunks:
  "buf (tap s) = [] \<Longrightarrow>
   tap (pump lg pa sf clk mdl mc (map Chunk cs) s) =
   (handle_parts lg pa sf mdl mc (butlast (js_split SEP (concat cs))) (tap s))
     \<lparr>buf := last (js_split SEP (concat cs))\<rparr>"
proof (induction cs rule: rev_induct)
  case Nil
  then show ?case by simp
next
  case (snoc v cs)
  let ?A = "butlast (js_split SEP (concat cs))"
  let ?L = "last (js_split SEP (concat cs))"
  let ?B = "js_split SEP (?L @ v)"
  have sp: "js_split SEP (concat (cs @ [v])) = ?A @ ?B"
    using js_split_append [of SEP "concat cs" v] by simp
  have bl: "butlast (?A @ ?B) = ?A @ butlast ?B" and la: "last (?A @ ?B) = last ?B"
    by (simp_all add: js_split_nonempty butlast_append)
  have "tap (pump lg pa sf clk mdl mc (map Chunk (cs @ [v])) s) =
        process_chunk lg pa sf mdl mc v (tap (pump lg pa sf clk mdl mc (map Chunk cs) s))"
    by (simp add: pump_chunks_snoc Let_def)
  also have "\<dots> = process_chunk lg pa sf mdl mc v ((handle_parts lg pa sf mdl mc ?A (tap s))\<lparr>buf := ?L\<rparr>)"
    using snoc by simp
  also have "\<dots> = (handle_parts lg pa sf mdl mc (?A @ butlast ?B) (tap s))\<lparr>buf := last ?B\<rparr>"
    by (simp add: process_chunk_def Let_def handle_parts_buf handle_parts_append)
  finally show ?case by (simp only: sp bl la)
qed


lemma usage_record_buf: "usage_record clk mdl mc (st\<lparr>buf := b\<rparr>) = usage_record clk mdl mc st"
  by (simp add: usage_record_def)

lemma tap_intercept_done:
  "tap (interceptStream lg pa sf clk (map Chunk cs @ Done # rest) mdl mc st) =
   (handle_parts lg pa sf mdl mc (butlast (js_split SEP (concat cs))) tap_init)
     \<lparr>buf := last (js_split SEP (concat cs))\<rparr>"
  by (simp add: interceptStream_def pump_append_chunks tap_after_chunks tap_init_def)

lemma ledger_intercept_done:
  "ledger (interceptStream lg pa sf clk (map Chunk cs @ Done # rest) mdl mc st) =
   recordRequest
     (usage_record clk mdl mc
        (handle_parts lg pa sf mdl mc (butlast (js_split SEP (concat cs))) tap_init)) st"
  by (simp add: interceptStream_def pump_append_chunks pump_chunks_ledger tap_after_chunks
      tap_init_def usage_record_buf)

text \<open>
  Claim C6, as the code has it. For every list of chunks, wherever the boundaries fall:
  when the stream ends, the interceptor's variables are those obtained by handling,
  once each and in order, the pieces that the blank-line separator cuts off the whole
  concatenated text, all but the last; the last piece, the text after the last
  separator, is what is left in \<^verbatim>\<open>buf\<close> and is not handled. So a frame cut by a chunk
  boundary is handled as one frame, and a frame is handled if and only if its
  separator has arrived. The usage record is built from those variables, and two
  ways of cutting the same text into chunks leave the same variables.
\<close>

theorem frames_parsed_once:
  "tap (interceptStream lg pa sf clk (map Chunk cs @ [Done]) mdl mc st) =
     (handle_parts lg pa sf mdl mc (butlast (js_split SEP (concat cs))) tap_init)
       \<lparr>buf := last (js_split SEP (concat cs))\<rparr> \<and>
   recentRequests (ledger (interceptStream lg pa sf clk (map Chunk cs @ [Done]) mdl mc st)) ! 0 =
     usage_record clk mdl mc
       (handle_parts lg pa sf mdl mc (butlast (js_split SEP (concat cs))) tap_init) \<and>
   (concat cs' = concat cs \<longrightarrow>
      tap (interceptStream lg pa sf clk (map Chunk cs' @ [Done]) mdl mc st) =
      tap (interceptStream lg pa sf clk (map Chunk cs @ [Done]) mdl mc st))"
  by (simp add: tap_intercept_done ledger_intercept_done recent_recordRequest_first)

theorem frames_parsed_once_witness:
  "tap (interceptStream True ex_parse ex_stringify ex_clock (map Chunk ex_chunks @ [Done])
          (JStr ''m'') (JNum 1) stats_init) =
     \<lparr>buf = [], blockType = JStr [], toolName = JStr [], toolInput = [],
      reqInputTokens = 100, reqOutputTokens = JNum 7, reqCacheCreation = JNum 0,
      reqCacheRead = JNum 20, reqStopReason = JStr ''end_turn'',
      transcript = [LogStart (JStr ''m'') (JNum 1) (JNum 100) (JNum 20) (JNum 0),
                    LogDelta (Some (JStr ''ab'')),
                    LogDone (Some (JNum 7)) (JStr ''end_turn'')]\<rparr> \<and>
   tap (interceptStream True ex_parse ex_stringify ex_clock (map Chunk [concat ex_chunks] @ [Done])
          (JStr ''m'') (JNum 1) stats_init) =
   tap (interceptStream True ex_parse ex_stringify ex_clock (map Chunk ex_chunks @ [Done])
          (JStr ''m'') (JNum 1) stats_init)"
proof -
  have ev: "(handle_parts True ex_parse ex_stringify (JStr ''m'') (JNum 1)
           (butlast (js_split SEP (concat ex_chunks))) tap_init)
          \<lparr>buf := last (js_split SEP (concat ex_chunks))\<rparr> =
        \<lparr>buf = [], blockType = JStr [], toolName = JStr [], toolInput = [],
         reqInputTokens = 100, reqOutputTokens = JNum 7, reqCacheCreation = JNum 0,
         reqCacheRead = JNum 20, reqStopReason = JStr ''end_turn'',
         transcript = [LogStart (JStr ''m'') (JNum 1) (JNum 100) (JNum 20) (JNum 0),
                       LogDelta (Some (JStr ''ab'')),
                       LogDone (Some (JNum 7)) (JStr ''end_turn'')]\<rparr>"
    by code_simp
  have same: "concat [concat ex_chunks] = concat ex_chunks" by simp
  note T = frames_parsed_once [of True ex_parse ex_stringify ex_clock ex_chunks "JStr ''m''" "JNum 1"
      stats_init "[concat ex_chunks]"]
  from T [THEN conjunct1] ev T [THEN conjunct2, THEN conjunct2, THEN mp, OF same]
  show ?thesis by (simp only:)
qed

text \<open>
  Claim C6 as stated fails: a last frame whose separator never arrives is not handled.
  The stream is a \<^verbatim>\<open>message_start\<close> frame with its separator, then a \<^verbatim>\<open>message_delta\<close>
  frame, then the end. Handling every piece of the concatenated text would log both
  events and capture 7 output tokens; the interceptor logs the first only and records
  0 output tokens.
\<close>

theorem final_frame_dropped:
  "transcript (handle_parts True ex_parse ex_stringify (JStr ''m'') (JNum 1)
      (js_split SEP (concat ex_chunks_open)) tap_init) =
     [LogStart (JStr ''m'') (JNum 1) (JNum 100) (JNum 20) (JNum 0),
      LogDone (Some (JNum 7)) (JStr ''end_turn'')] \<and>
   transcript (tap (interceptStream True ex_parse ex_stringify ex_clock
      (map Chunk ex_chunks_open @ [Done]) (JStr ''m'') (JNum 1) stats_init)) =
     [LogStart (JStr ''m'') (JNum 1) (JNum 100) (JNum 20) (JNum 0)] \<and>
   buf (tap (interceptStream True ex_parse ex_stringify ex_clock
      (map Chunk ex_chunks_open @ [Done]) (JStr ''m'') (JNum 1) stats_init)) =
     ''data: '' @ ex_delta_text \<and>
   reqOutputTokens (tap (interceptStream True ex_parse ex_stringify ex_clock
      (map Chunk ex_chunks_open @ [Done]) (JStr ''m'') (JNum 1) stats_init)) \<noteq>
   reqOutputTokens (handle_parts True ex_parse ex_stringify (JStr ''m'') (JNum 1)
      (js_split SEP (concat ex_chunks_open)) tap_init) \<and>
   outputTokens (recentRequests (ledger (interceptStream True ex_parse ex_stringify ex_clock
      (map Chunk ex_chunks_open @ [Done]) (JStr ''m'') (JNum 1) stats_init)) ! 0) = JNum 0"
  by code_simp

section \<open>Which properties of the body a mutation step leaves alone\<close>


lemma map_of_update_other: "k' \<noteq> k \<Longrightarrow> map_of (AList.update k v al) k' = map_of al k'"
  by (simp add: update_conv')

lemma bindE_Inr: "bindE r f = Inr y \<Longrightarrow> \<exists>x. r = Inr x \<and> f x = Inr y"
  by (cases r) (simp_all add: bindE_def)

lemma coerce_system_other: "k \<noteq> ''system'' \<Longrightarrow> map_of (coerce_system b) k = map_of b k"
  by (auto simp: coerce_system_def map_of_update_other split: option.splits json.splits)

lemma ensureSystem_other:
  assumes "ensureSystem custom b = Inr b'" and "k \<noteq> ''system''"
  shows "map_of b' k = map_of b k"
proof -
  obtain sys' where "b' = AList.update ''system'' (JArr sys') (coerce_system b)"
    using assms(1) unfolding ensureSystem_def Let_def
    by (auto split: option.splits json.splits dest!: bindE_Inr)
  then show ?thesis using assms(2) by (simp add: map_of_update_other coerce_system_other)
qed

lemma stripModelSuffix_other:
  assumes "stripModelSuffix b = Inr b'" and "k \<noteq> ''model''"
  shows "map_of b' k = map_of b k"
  using assms unfolding stripModelSuffix_def
  by (auto split: option.splits json.splits if_splits dest!: bindE_Inr simp: map_of_update_other)

lemma stripMarkers_other:
  assumes "stripMarkers b = Inr b'" and "k \<noteq> ''system''"
  shows "map_of b' k = map_of b k"
  using assms unfolding stripMarkers_def
  by (auto split: option.splits json.splits if_splits dest!: bindE_Inr simp: map_of_update_other)

lemma markLast_other:
  assumes "markLast key b = Inr (b', added)" and "k \<noteq> key"
  shows "map_of b' k = map_of b k"
  using assms unfolding markLast_def
  by (auto split: option.splits json.splits if_splits simp: map_of_update_other)

lemma placeCache_other:
  assumes "placeCache b = Inr b'" and "k \<noteq> ''system''" and "k \<noteq> ''tools''"
  shows "map_of b' k = map_of b k"
proof -
  from assms(1) obtain b1 a1 a2 where
    s1: "(if cacheTotal b < MAX_CACHE_BLOCKS then markLast ''system'' b else Inr (b, False)) = Inr (b1, a1)"
    and s2: "(if (if a1 then cacheTotal b + 1 else cacheTotal b) < MAX_CACHE_BLOCKS then markLast ''tools'' b1 else Inr (b1, False)) = Inr (b', a2)"
    unfolding placeCache_def Let_def by (auto dest!: bindE_Inr)
  have "map_of b1 k = map_of b k" using s1 assms(2) by (auto split: if_splits dest: markLast_other)
  moreover have "map_of b' k = map_of b1 k" using s2 assms(3) by (auto split: if_splits dest: markLast_other)
  ultimately show ?thesis by simp
qed

lemma overrideMaxTokens_other: "k \<noteq> ''max_tokens'' \<Longrightarrow> map_of (overrideMaxTokens cfg b) k = map_of b k"
  by (auto simp: overrideMaxTokens_def map_of_update_other split: option.splits)

lemma contextManagement_other:
  assumes "contextManagement cfg b = Inr b'" and "k \<noteq> ''context_management''"
  shows "map_of b' k = map_of b k"
proof -
  have "b' = b \<or> (\<exists>v. b' = AList.update ''context_management'' v (ensure_context_management b))"
    using assms(1) unfolding contextManagement_def
    by (auto split: option.splits json.splits if_splits dest!: bindE_Inr)
  moreover have "map_of (ensure_context_management b) k = map_of b k"
    using assms(2) by (simp add: ensure_context_management_def map_of_update_other)
  ultimately show ?thesis using assms(2) by (auto simp: map_of_update_other)
qed

lemma ensure_tools_other: "k \<noteq> ''tools'' \<Longrightarrow> map_of (ensure_tools b) k = map_of b k"
  by (auto simp: ensure_tools_def map_of_update_other split: option.splits json.splits)

lemma webFetch_other:
  assumes "webFetch cfg b = Inr b'" and "k \<noteq> ''tools''"
  shows "map_of b' k = map_of b k"
  using assms unfolding webFetch_def
  by (auto split: if_splits dest!: bindE_Inr simp: map_of_update_other ensure_tools_other)

lemma announce_same: "announce b = Inr b' \<Longrightarrow> b' = b"
  by (auto simp: announce_def split: if_splits option.splits json.splits)

lemma mutateBody_steps:
  assumes "mutateBody cfg custom b = Inr b'"
  obtains b1 b2 b3 b4 b5 where
    "ensureSystem custom b = Inr b1" "stripModelSuffix b1 = Inr b2" "stripMarkers b2 = Inr b3"
    "(if CACHE_ENABLED cfg then placeCache b3 else Inr b3) = Inr b4"
    "contextManagement cfg (overrideMaxTokens cfg b4) = Inr b5" "webFetch cfg b5 = Inr b'"
proof -
  from assms obtain b1 b2 b3 b4 b5 b6 where st:
    "ensureSystem custom b = Inr b1" "stripModelSuffix b1 = Inr b2" "stripMarkers b2 = Inr b3"
    "(if CACHE_ENABLED cfg then placeCache b3 else Inr b3) = Inr b4"
    "contextManagement cfg (overrideMaxTokens cfg b4) = Inr b5" "webFetch cfg b5 = Inr b6"
    and an: "announce b6 = Inr b'"
    unfolding mutateBody_def by (blast dest!: bindE_Inr)
  from an have "b' = b6" by (rule announce_same)
  with st show ?thesis using that by blast
qed


lemma mutateBody_model:
  assumes "mutateBody cfg custom b = Inr b'"
  shows "\<exists>b1 b2. ensureSystem custom b = Inr b1 \<and> stripModelSuffix b1 = Inr b2 \<and>
           map_of b' ''model'' = map_of b2 ''model''"
proof -
  from assms(1) obtain b1 b2 b3 b4 b5 where st:
    "ensureSystem custom b = Inr b1" "stripModelSuffix b1 = Inr b2" "stripMarkers b2 = Inr b3"
    "(if CACHE_ENABLED cfg then placeCache b3 else Inr b3) = Inr b4"
    "contextManagement cfg (overrideMaxTokens cfg b4) = Inr b5" "webFetch cfg b5 = Inr b'"
    by (rule mutateBody_steps)
  have neq: "''model'' \<noteq> ''system''" "''model'' \<noteq> ''tools''" "''model'' \<noteq> ''max_tokens''"
    "''model'' \<noteq> ''context_management''"
    by simp_all
  have e3: "map_of b3 ''model'' = map_of b2 ''model''" using st(3) neq(1) by (rule stripMarkers_other)
  have e4: "map_of b4 ''model'' = map_of b3 ''model''"
  proof (cases "CACHE_ENABLED cfg")
    case True
    then have "placeCache b3 = Inr b4" using st(4) by simp
    then show ?thesis using neq(1,2) by (rule placeCache_other)
  next
    case False
    then show ?thesis using st(4) by simp
  qed
  have e5: "map_of b5 ''model'' = map_of b4 ''model''"
    using contextManagement_other [OF st(5) neq(4)] overrideMaxTokens_other [OF neq(3), of cfg b4]
    by (simp only:)
  have e6: "map_of b' ''model'' = map_of b5 ''model''" using st(6) neq(2) by (rule webFetch_other)
  have "map_of b' ''model'' = map_of b2 ''model''" using e3 e4 e5 e6 by (simp only:)
  with st(1,2) show ?thesis by blast
qed

section \<open>When a usage record is written\<close>




















section \<open>The model alias\<close>


lemma includes_str_suffix: "includes_str (p @ s) s"
  by (induction p) (cases s; simp)+

lemma suffix_no_straddle:
  assumes "q \<noteq> []" and "take (length SUFFIX_1M) (q @ SUFFIX_1M) = SUFFIX_1M"
  shows "take (length SUFFIX_1M) q = SUFFIX_1M"
proof (cases q)
  case Nil
  with assms(1) show ?thesis by simp
next
  case q1: (Cons c cs)
  show ?thesis
  proof (cases cs)
    case Nil
    with q1 assms(2) show ?thesis by (simp add: SUFFIX_1M_def)
  next
    case q2: (Cons d ds)
    show ?thesis
    proof (cases ds)
      case Nil
      with q1 q2 assms(2) show ?thesis by (simp add: SUFFIX_1M_def)
    next
      case q3: (Cons e es)
      show ?thesis
      proof (cases es)
        case Nil
        with q1 q2 q3 assms(2) show ?thesis by (simp add: SUFFIX_1M_def)
      next
        case (Cons f fs)
        with q1 q2 q3 assms(2) show ?thesis by (simp add: SUFFIX_1M_def)
      qed
    qed
  qed
qed

lemma replace_first_suffix_gen:
  assumes nostr: "\<And>q. q \<noteq> [] \<Longrightarrow> take (length pat) (q @ pat) = pat \<Longrightarrow> take (length pat) q = pat"
  shows "\<not> includes_str p pat \<Longrightarrow> replace_first pat [] (p @ pat) = p"
proof (induction p)
  case Nil
  show ?case by (cases pat) simp_all
next
  case (Cons c cs)
  have no: "take (length pat) (c # cs) \<noteq> pat" and rest: "\<not> includes_str cs pat"
    using Cons.prems by (metis includes_str.simps(2))+
  have "take (length pat) ((c # cs) @ pat) \<noteq> pat"
    using nostr [of "c # cs"] no by blast
  then have "take (length pat) (c # (cs @ pat)) \<noteq> pat" by simp
  then have "replace_first pat [] (c # (cs @ pat)) = c # replace_first pat [] (cs @ pat)"
    by (simp only: replace_first.simps if_False)
  then show ?case using Cons.IH [OF rest] by simp
qed

lemma replace_first_suffix:
  assumes "\<not> includes_str p SUFFIX_1M"
  shows "replace_first SUFFIX_1M [] (p @ SUFFIX_1M) = p"
  using suffix_no_straddle assms by (rule replace_first_suffix_gen)

lemma stripModelSuffix_suffix:
  assumes "map_of b ''model'' = Some (JStr (p @ SUFFIX_1M))" and "\<not> includes_str p SUFFIX_1M"
  shows "stripModelSuffix b = Inr (AList.update ''model'' (JStr p) b)"
  using assms by (simp add: stripModelSuffix_def bindE_def includes_str_suffix replace_first_suffix)

text \<open>
  Claim C9, as the code has it. The code removes the first occurrence of \<^verbatim>\<open>[1m]\<close> in
  the model identifier. When the identifier ends in \<^verbatim>\<open>[1m]\<close> and the part before that
  suffix does not contain \<^verbatim>\<open>[1m]\<close>, the body sent upstream (whenever the mutation steps
  accept the request) has as its model that part, unaltered.
\<close>

theorem model_suffix_removed:
  assumes "map_of body ''model'' = Some (JStr (p @ SUFFIX_1M))"
    and "\<not> includes_str p SUFFIX_1M"
    and "mutateBody cfg custom body = Inr sent"
  shows "map_of sent ''model'' = Some (JStr p)"
proof -
  from mutateBody_model [OF assms(3)] obtain b1 b2 where
    es: "ensureSystem custom body = Inr b1" and sm: "stripModelSuffix b1 = Inr b2"
    and eq: "map_of sent ''model'' = map_of b2 ''model''"
    by blast
  have "map_of b1 ''model'' = Some (JStr (p @ SUFFIX_1M))"
    using ensureSystem_other [OF es, of "''model''"] assms(1) by simp
  then have "stripModelSuffix b1 = Inr (AList.update ''model'' (JStr p) b1)"
    using assms(2) by (rule stripModelSuffix_suffix)
  with sm have "b2 = AList.update ''model'' (JStr p) b1" by simp
  then show ?thesis using eq by (simp add: update_conv')
qed

theorem model_suffix_removed_witness:
  "map_of ex_body_opus ''model'' = Some (JStr (''claude-opus-4-6'' @ SUFFIX_1M)) \<and>
   \<not> includes_str ''claude-opus-4-6'' SUFFIX_1M \<and>
   mutateBody ex_cfg None ex_body_opus = Inr ex_sent_opus \<and>
   map_of ex_sent_opus ''model'' = Some (JStr ''claude-opus-4-6'')"
proof -
  have m: "map_of ex_body_opus ''model'' = Some (JStr (''claude-opus-4-6'' @ SUFFIX_1M))"
    by (simp add: ex_body_opus_def SUFFIX_1M_def)
  have n: "\<not> includes_str ''claude-opus-4-6'' SUFFIX_1M" by code_simp
  have mb: "mutateBody ex_cfg None ex_body_opus = Inr ex_sent_opus" by code_simp
  from model_suffix_removed [OF m n mb] m n mb show ?thesis by simp
qed

text \<open>
  Claim C9 as stated fails when the suffix also occurs earlier in the identifier:
  \<^verbatim>\<open>a[1m]b[1m]\<close> ends in the suffix, removing that occurrence would give \<^verbatim>\<open>a[1m]b\<close>,
  and the body sent has \<^verbatim>\<open>ab[1m]\<close>.
\<close>

theorem model_suffix_earlier_occurrence:
  "map_of ex_body_twice ''model'' = Some (JStr (''a[1m]b'' @ SUFFIX_1M)) \<and>
   mutateBody ex_cfg None ex_body_twice = Inr ex_sent_twice \<and>
   map_of ex_sent_twice ''model'' = Some (JStr ''ab[1m]'') \<and>
   ''ab[1m]'' \<noteq> ''a[1m]b''"
  by code_simp

section \<open>The cache-control budget\<close>

lemma countCache_JObj:
  "countCache (JObj kvs) =
   (if truthy_opt (map_of kvs ''cache_control'') then 1 else 0) + sum_list (map child_count kvs)"
  by (simp add: child_count_def[abs_def])

lemma countCache_ephemeral: "countCache ephemeral = 0"
  by (simp add: ephemeral_def)

lemma children_update_falsy:
  "\<not> truthy_opt (map_of kvs k) \<Longrightarrow> child_count (k, v) = 0 \<Longrightarrow>
   sum_list (map child_count (AList.update k v kvs)) = sum_list (map child_count kvs)"
proof (induction kvs)
  case Nil
  then show ?case by simp
next
  case (Cons kv kvs)
  obtain k' v' where kv: "kv = (k', v')" by (cases kv)
  show ?case
  proof (cases "k' = k")
    case True
    with Cons.prems kv have "\<not> truthy v'" by simp
    then have "child_count (k', v') = 0" by (simp add: child_count_def)
    with True kv Cons.prems show ?thesis by simp
  next
    case False
    with Cons kv show ?thesis by simp
  qed
qed

lemma countCache_mark:
  assumes "\<not> truthy_opt (map_of kvs ''cache_control'')"
  shows "countCache (JObj (AList.update ''cache_control'' ephemeral kvs)) = countCache (JObj kvs) + 1"
proof -
  have "child_count (''cache_control'', ephemeral) = 0"
    by (simp add: child_count_def countCache_ephemeral)
  with assms have "sum_list (map child_count (AList.update ''cache_control'' ephemeral kvs)) =
                   sum_list (map child_count kvs)"
    by (rule children_update_falsy)
  moreover have "truthy_opt (map_of (AList.update ''cache_control'' ephemeral kvs) ''cache_control'')"
    by (simp add: update_conv' ephemeral_def)
  ultimately show ?thesis using assms by (simp only: countCache_JObj if_True if_False)
qed

lemma countCache_last:
  "xs \<noteq> [] \<Longrightarrow> countCache (JArr (butlast xs @ [x])) + countCache (last xs) = countCache (JArr xs) + countCache x"
proof -
  assume "xs \<noteq> []"
  then have "xs = butlast xs @ [last xs]" by simp
  then have "countCache (JArr xs) = sum_list (map countCache (butlast xs)) + countCache (last xs)"
    by (metis countCache.simps(1) map_append sum_list_append list.simps(8,9) sum_list.Cons sum_list.Nil add_0_right)
  then show ?thesis by simp
qed

lemma markLast_count:
  assumes "markLast key b = Inr (b', added)"
  shows "countCache_opt (map_of b' key) = countCache_opt (map_of b key) + (if added then 1 else 0)"
proof (cases added)
  case False
  then have "b' = b" using assms unfolding markLast_def
    by (auto split: option.splits json.splits if_splits)
  with False show ?thesis by simp
next
  case True
  then obtain xs kvs where
    m: "map_of b key = Some (JArr xs)" and ne: "xs \<noteq> []" and l: "last xs = JObj kvs"
    and nt: "\<not> truthy_opt (map_of kvs ''cache_control'')"
    and b': "b' = AList.update key (JArr (butlast xs @ [JObj (AList.update ''cache_control'' ephemeral kvs)])) b"
    using assms unfolding markLast_def
    by (auto split: option.splits json.splits if_splits)
  have "countCache (JArr (butlast xs @ [JObj (AList.update ''cache_control'' ephemeral kvs)])) + countCache (last xs)
        = countCache (JArr xs) + countCache (JObj (AList.update ''cache_control'' ephemeral kvs))"
    using ne by (rule countCache_last)
  then have "countCache (JArr (butlast xs @ [JObj (AList.update ''cache_control'' ephemeral kvs)]))
     = countCache (JArr xs) + 1"
    using countCache_mark [OF nt] l by simp
  then show ?thesis using True m b' by (simp add: update_conv')
qed

lemma cacheTotal_markLast:
  assumes "markLast key b = Inr (b', added)" and "key = ''system'' \<or> key = ''tools''"
  shows "cacheTotal b' = cacheTotal b + (if added then 1 else 0)"
proof -
  note c = markLast_count [OF assms(1)]
  from assms(2) show ?thesis
  proof
    assume k: "key = ''system''"
    have "map_of b' ''messages'' = map_of b ''messages''" "map_of b' ''tools'' = map_of b ''tools''"
      using markLast_other [OF assms(1)] k by simp_all
    with c k show ?thesis by (simp add: cacheTotal_def)
  next
    assume k: "key = ''tools''"
    have "map_of b' ''messages'' = map_of b ''messages''" "map_of b' ''system'' = map_of b ''system''"
      using markLast_other [OF assms(1)] k by simp_all
    with c k show ?thesis by (simp add: cacheTotal_def)
  qed
qed

lemma placeCache_total:
  assumes "placeCache body = Inr body'"
  shows "cacheTotal body' \<le> max 4 (cacheTotal body) \<and> cacheTotal body \<le> cacheTotal body' \<and>
         (4 \<le> cacheTotal body \<longrightarrow> body' = body)"
proof -
  from assms obtain b1 a1 a2 where
    s1: "(if cacheTotal body < MAX_CACHE_BLOCKS then markLast ''system'' body else Inr (body, False)) = Inr (b1, a1)"
    and s2: "(if (if a1 then cacheTotal body + 1 else cacheTotal body) < MAX_CACHE_BLOCKS
              then markLast ''tools'' b1 else Inr (b1, False)) = Inr (body', a2)"
    unfolding placeCache_def Let_def by (auto dest!: bindE_Inr)
  have t1: "cacheTotal b1 = cacheTotal body + (if a1 then 1 else 0)"
    using s1 cacheTotal_markLast [of "''system''" body b1 a1] by (auto split: if_splits)
  have a1: "a1 \<longrightarrow> cacheTotal body < MAX_CACHE_BLOCKS"
    using s1 by (auto split: if_splits)
  have t2: "cacheTotal body' = cacheTotal b1 + (if a2 then 1 else 0)"
    using s2 cacheTotal_markLast [of "''tools''" b1 body' a2] by (auto split: if_splits)
  have a2: "a2 \<longrightarrow> cacheTotal b1 < MAX_CACHE_BLOCKS"
    using s2 t1 by (auto split: if_splits)
  have same: "4 \<le> cacheTotal body \<longrightarrow> body' = body"
    using s1 s2 by (auto simp: MAX_CACHE_BLOCKS_def split: if_splits)
  from t1 t2 a1 a2 same show ?thesis by (auto simp: MAX_CACHE_BLOCKS_def)
qed


lemma countCache_falsy: "\<not> truthy v \<Longrightarrow> countCache v = 0"
  by (cases v) simp_all

lemma countCache_opt_falsy: "\<not> truthy_opt x \<Longrightarrow> countCache_opt x = 0"
  by (cases x) (simp_all add: countCache_falsy)

lemma countCache_text_block: "countCache (text_block t) = 0"
  by (simp add: text_block_def)

lemma countCache_custom_block: "countCache (custom_block t) = 0"
  by (simp add: custom_block_def)

lemma countCache_web_fetch_tool: "countCache web_fetch_tool = 0"
  by (simp add: web_fetch_tool_def)

lemma coerce_system_count:
  "countCache_opt (map_of (coerce_system b) ''system'') = countCache_opt (map_of b ''system'')"
proof (cases "truthy_opt (map_of b ''system'')")
  case False
  then show ?thesis by (simp add: coerce_system_def update_conv' countCache_opt_falsy)
next
  case True
  then show ?thesis
    by (auto simp: coerce_system_def update_conv' countCache_text_block split: option.splits json.splits)
qed

lemma countCache_insert_second:
  "countCache (JArr (take 1 xs @ [c] @ drop 1 xs)) = countCache (JArr xs) + countCache c"
proof -
  have "sum_list (map countCache (take 1 xs)) + sum_list (map countCache (drop 1 xs)) =
        sum_list (map countCache xs)"
    by (metis append_take_drop_id map_append sum_list_append)
  then show ?thesis by simp
qed

lemma add_custom_count:
  assumes "add_custom custom sys = Inr sys'"
  shows "countCache (JArr sys') = countCache (JArr sys)"
proof (cases custom)
  case None
  with assms show ?thesis by simp
next
  case (Some c)
  show ?thesis
  proof (cases "c = []")
    case True
    with Some assms show ?thesis by simp
  next
    case False
    with Some assms obtain hc where
      "sys' = (if hc then sys else take 1 sys @ [custom_block c] @ drop 1 sys)"
      by (auto dest!: bindE_Inr)
    then show ?thesis
      using countCache_insert_second [of sys "custom_block c"]
      by (simp add: countCache_custom_block del: countCache.simps)
  qed
qed

lemma ensureSystem_cacheTotal:
  assumes "ensureSystem custom b = Inr b'"
  shows "cacheTotal b' = cacheTotal b"
proof -
  from assms obtain sys hasAuth sys' where
    m: "map_of (coerce_system b) ''system'' = Some (JArr sys)"
    and ac: "add_custom custom (if hasAuth then sys else text_block CC_SYSTEM # sys) = Inr sys'"
    and b': "b' = AList.update ''system'' (JArr sys') (coerce_system b)"
    unfolding ensureSystem_def Let_def
    by (auto split: option.splits json.splits dest!: bindE_Inr)
  have "countCache (JArr sys') = countCache (JArr (if hasAuth then sys else text_block CC_SYSTEM # sys))"
    using ac by (rule add_custom_count)
  also have "\<dots> = countCache (JArr sys)" by (simp add: countCache_text_block)
  finally have "countCache_opt (map_of b' ''system'') = countCache_opt (map_of b ''system'')"
    using b' m coerce_system_count [of b] by (simp add: update_conv')
  moreover have "map_of b' ''messages'' = map_of b ''messages''" "map_of b' ''tools'' = map_of b ''tools''"
    using ensureSystem_other [OF assms] by simp_all
  ultimately show ?thesis by (simp add: cacheTotal_def)
qed

lemma stripModelSuffix_cacheTotal:
  assumes "stripModelSuffix b = Inr b'"
  shows "cacheTotal b' = cacheTotal b"
  using stripModelSuffix_other [OF assms] by (simp add: cacheTotal_def)

lemma children_delete_le:
  "sum_list (map child_count (AList.delete k kvs)) \<le> sum_list (map child_count kvs)"
  by (induction kvs) auto

lemma delete_proxy_count:
  assumes "delete_proxy x = Inr y"
  shows "countCache y \<le> countCache x"
proof (cases x)
  case (JObj kvs)
  with assms have y: "y = JObj (AList.delete ''_proxy'' kvs)" by simp
  have "map_of (AList.delete ''_proxy'' kvs) ''cache_control'' = map_of kvs ''cache_control''"
    by (simp add: delete_conv')
  then show ?thesis
    unfolding y JObj countCache_JObj using children_delete_le [of "''_proxy''" kvs] by simp
qed (use assms in simp_all)

lemma mapE_delete_proxy_count:
  "mapE delete_proxy xs = Inr ys \<Longrightarrow> countCache (JArr ys) \<le> countCache (JArr xs)"
proof (induction xs arbitrary: ys)
  case Nil
  then show ?case by simp
next
  case (Cons x xs)
  from Cons.prems obtain y ys' where y: "delete_proxy x = Inr y" and r: "mapE delete_proxy xs = Inr ys'"
    and ys: "ys = y # ys'"
    by (auto dest!: bindE_Inr)
  from Cons.IH [OF r] delete_proxy_count [OF y] ys show ?case by simp
qed

lemma stripMarkers_cacheTotal:
  assumes "stripMarkers b = Inr b'"
  shows "cacheTotal b' \<le> cacheTotal b"
proof (cases "\<exists>sys. map_of b ''system'' = Some (JArr sys)")
  case False
  then have "b' = b" using assms by (auto simp: stripMarkers_def split: option.splits json.splits)
  then show ?thesis by simp
next
  case True
  then obtain sys where m: "map_of b ''system'' = Some (JArr sys)" by blast
  with assms obtain sys' where me: "mapE delete_proxy sys = Inr sys'"
    and b': "b' = AList.update ''system'' (JArr sys') b"
    by (auto simp: stripMarkers_def dest!: bindE_Inr)
  have "countCache_opt (map_of b' ''system'') \<le> countCache_opt (map_of b ''system'')"
    using mapE_delete_proxy_count [OF me] b' m by (simp add: update_conv' del: countCache.simps)
  moreover have "map_of b' ''messages'' = map_of b ''messages''" "map_of b' ''tools'' = map_of b ''tools''"
    using stripMarkers_other [OF assms] by simp_all
  ultimately show ?thesis by (simp add: cacheTotal_def)
qed

lemma overrideMaxTokens_cacheTotal: "cacheTotal (overrideMaxTokens cfg b) = cacheTotal b"
  by (simp add: cacheTotal_def overrideMaxTokens_other)

lemma contextManagement_cacheTotal:
  assumes "contextManagement cfg b = Inr b'"
  shows "cacheTotal b' = cacheTotal b"
  using contextManagement_other [OF assms] by (simp add: cacheTotal_def)

lemma ensure_tools_count:
  "countCache_opt (map_of (ensure_tools b) ''tools'') \<le> countCache_opt (map_of b ''tools'')"
  by (auto simp: ensure_tools_def update_conv' split: option.splits json.splits)

lemma tools_of_ensure_tools:
  "map_of (ensure_tools b) ''tools'' = Some (JArr (tools_of (ensure_tools b)))"
  by (auto simp: ensure_tools_def tools_of_def update_conv' split: option.splits json.splits)

lemma webFetch_cacheTotal:
  assumes "webFetch cfg b = Inr b'"
  shows "cacheTotal b' \<le> cacheTotal b"
proof (cases "WEB_FETCH_ENABLED cfg")
  case False
  with assms show ?thesis by (simp add: webFetch_def)
next
  case True
  with assms obtain hit where b': "b' = (if hit then ensure_tools b
      else AList.update ''tools'' (JArr (tools_of (ensure_tools b) @ [web_fetch_tool])) (ensure_tools b))"
    by (auto simp: webFetch_def dest!: bindE_Inr)
  have "countCache_opt (map_of b' ''tools'') = countCache_opt (map_of (ensure_tools b) ''tools'')"
    unfolding b' using tools_of_ensure_tools [of b]
    by (simp add: update_conv' countCache_web_fetch_tool)
  then have "countCache_opt (map_of b' ''tools'') \<le> countCache_opt (map_of b ''tools'')"
    using ensure_tools_count [of b] by simp
  moreover have "map_of b' ''messages'' = map_of b ''messages''" "map_of b' ''system'' = map_of b ''system''"
    using webFetch_other [OF assms] by simp_all
  ultimately show ?thesis by (simp add: cacheTotal_def)
qed

lemma mutateBody_cacheTotal:
  assumes "mutateBody cfg custom b = Inr sent"
  shows "cacheTotal sent \<le> max 4 (cacheTotal b)"
proof -
  from assms obtain b1 b2 b3 b4 b5 where st:
    "ensureSystem custom b = Inr b1" "stripModelSuffix b1 = Inr b2" "stripMarkers b2 = Inr b3"
    "(if CACHE_ENABLED cfg then placeCache b3 else Inr b3) = Inr b4"
    "contextManagement cfg (overrideMaxTokens cfg b4) = Inr b5" "webFetch cfg b5 = Inr sent"
    by (rule mutateBody_steps)
  have e1: "cacheTotal b1 = cacheTotal b" using st(1) by (rule ensureSystem_cacheTotal)
  have e2: "cacheTotal b2 = cacheTotal b1" using st(2) by (rule stripModelSuffix_cacheTotal)
  have e3: "cacheTotal b3 \<le> cacheTotal b2" using st(3) by (rule stripMarkers_cacheTotal)
  have e4: "cacheTotal b4 \<le> max 4 (cacheTotal b3)"
  proof (cases "CACHE_ENABLED cfg")
    case True
    then have "placeCache b3 = Inr b4" using st(4) by simp
    then show ?thesis using placeCache_total by blast
  next
    case False
    then show ?thesis using st(4) by simp
  qed
  have e5: "cacheTotal b5 = cacheTotal b4"
    using contextManagement_cacheTotal [OF st(5)] by (simp add: overrideMaxTokens_cacheTotal)
  have e6: "cacheTotal sent \<le> cacheTotal b5" using st(6) by (rule webFetch_cacheTotal)
  from e1 e2 e3 e4 e5 e6 show ?thesis by simp
qed

text \<open>
  Claim C3, as the code has it. The placement step counts the annotations in
  \<^verbatim>\<open>system\<close>, \<^verbatim>\<open>messages\<close> and \<^verbatim>\<open>tools\<close>, adds one to the last system block and one
  to the last tool only while the count is below 4, and removes none. So for every body
  the step accepts, the count afterwards is at most the larger of 4 and the count
  before; it is at most 4 whenever the body arrived with at most 4; and a body that
  arrives with 4 or more is left as it is. The other steps add no annotation, so the
  same bound holds between the request body and the body sent upstream.
\<close>

theorem cache_budget:
  "(placeCache body = Inr body' \<longrightarrow>
      cacheTotal body' \<le> max 4 (cacheTotal body) \<and> cacheTotal body \<le> cacheTotal body' \<and>
      (4 \<le> cacheTotal body \<longrightarrow> body' = body)) \<and>
   (mutateBody cfg custom request = Inr sent \<longrightarrow> cacheTotal sent \<le> max 4 (cacheTotal request))"
  using placeCache_total [of body body'] mutateBody_cacheTotal [of cfg custom request sent]
  by blast

theorem cache_budget_witness:
  "placeCache ex_body_three = Inr ex_placed_three \<and>
   mutateBody ex_cfg None ex_body_three = Inr ex_sent_three \<and>
   cacheTotal ex_body_three = 3 \<and> cacheTotal ex_placed_three = 4 \<and> cacheTotal ex_sent_three = 4 \<and>
   cacheTotal ex_placed_three \<le> max 4 (cacheTotal ex_body_three) \<and>
   cacheTotal ex_sent_three \<le> max 4 (cacheTotal ex_body_three)"
proof -
  have pc: "placeCache ex_body_three = Inr ex_placed_three" by code_simp
  have mb: "mutateBody ex_cfg None ex_body_three = Inr ex_sent_three" by code_simp
  have c3: "cacheTotal ex_body_three = 3" by code_simp
  have c4: "cacheTotal ex_placed_three = 4" by code_simp
  have c5: "cacheTotal ex_sent_three = 4" by code_simp
  from cache_budget [of ex_body_three ex_placed_three ex_cfg None ex_body_three ex_sent_three]
    pc mb c3 c4 c5
  show ?thesis by simp
qed

text \<open>
  Claim C3 as stated fails for a body that arrives with more than 4 annotations: the
  step leaves all five in place, and so does the whole pipeline, which only appends
  the web-fetch tool.
\<close>

theorem cache_budget_exceeded:
  "cacheTotal ex_body_five = 5 \<and>
   placeCache ex_body_five = Inr ex_body_five \<and>
   mutateBody ex_cfg None ex_body_five = Inr (ex_body_five @ [(''tools'', JArr [web_fetch_tool])]) \<and>
   cacheTotal (ex_body_five @ [(''tools'', JArr [web_fetch_tool])]) = 5 \<and>
   \<not> cacheTotal (ex_body_five @ [(''tools'', JArr [web_fetch_tool])]) \<le> 4"
  by code_simp

section \<open>System prompt normalisation\<close>


lemma includes_str_self: "includes_str s s"
  by (cases s) simp_all

lemma is_identity_text_block: "is_identity_block (text_block CC_SYSTEM) = Inr True"
  by (simp add: text_block_def includes_str_self)

lemma is_identity_custom_block: "\<exists>x. is_identity_block (custom_block c) = Inr x"
  by (simp add: custom_block_def)

lemma is_custom_custom_block: "is_custom_block (custom_block c) = Inr True"
  by (simp add: custom_block_def)

lemma js_some_insert_second:
  assumes "js_some p xs = Inr True" and "p e = Inr x"
  shows "js_some p (take 1 xs @ [e] @ drop 1 xs) = Inr True"
proof (cases xs)
  case Nil
  with assms(1) show ?thesis by simp
next
  case (Cons y ys)
  with assms show ?thesis by (cases "p y") (auto split: if_splits)
qed

lemma js_some_insert_hit:
  assumes "js_some p xs = Inr False" and "p e = Inr True"
  shows "js_some p (take 1 xs @ [e] @ drop 1 xs) = Inr True"
proof (cases xs)
  case Nil
  with assms show ?thesis by simp
next
  case (Cons y ys)
  with assms show ?thesis by (cases "p y") (auto split: if_splits)
qed

lemma coerce_system_array:
  "map_of b ''system'' = Some (JArr sys) \<Longrightarrow> coerce_system b = b"
  by (simp add: coerce_system_def)

lemma add_custom_present:
  assumes "custom = None \<or> custom = Some [] \<or> js_some is_custom_block sys = Inr True"
  shows "add_custom custom sys = Inr sys"
proof (cases custom)
  case None
  then show ?thesis by simp
next
  case (Some c)
  with assms show ?thesis by (auto simp: bindE_def)
qed

lemma ensureSystem_noop:
  assumes "map_of b ''system'' = Some (JArr sys)"
    and "js_some is_identity_block sys = Inr True"
    and "custom = None \<or> custom = Some [] \<or> js_some is_custom_block sys = Inr True"
  shows "ensureSystem custom b = Inr b"
proof -
  have "AList.update ''system'' (JArr sys) b = b"
    using assms(1) by (rule update_triv)
  then show ?thesis
    using assms(1,2) add_custom_present [OF assms(3)]
    by (simp add: ensureSystem_def Let_def coerce_system_array bindE_def)
qed

lemma add_custom_result:
  assumes "add_custom custom sys1 = Inr sys2" and "js_some is_identity_block sys1 = Inr True"
  shows "js_some is_identity_block sys2 = Inr True \<and>
         (custom = None \<or> custom = Some [] \<or> js_some is_custom_block sys2 = Inr True)"
proof (cases custom)
  case None
  with assms show ?thesis by simp
next
  case (Some c)
  show ?thesis
  proof (cases "c = []")
    case True
    with Some assms show ?thesis by simp
  next
    case False
    with Some assms(1) obtain hc where hc: "js_some is_custom_block sys1 = Inr hc"
      and s2: "sys2 = (if hc then sys1 else take 1 sys1 @ [custom_block c] @ drop 1 sys1)"
      by (auto dest!: bindE_Inr)
    show ?thesis
    proof (cases hc)
      case True
      with hc s2 assms(2) show ?thesis by simp
    next
      case False
      obtain x where "is_identity_block (custom_block c) = Inr x"
        using is_identity_custom_block by blast
      with assms(2) have "js_some is_identity_block (take 1 sys1 @ [custom_block c] @ drop 1 sys1) = Inr True"
        by (rule js_some_insert_second)
      moreover have "js_some is_custom_block (take 1 sys1 @ [custom_block c] @ drop 1 sys1) = Inr True"
      proof (rule js_some_insert_hit)
        show "js_some is_custom_block sys1 = Inr False" using hc False by simp
        show "is_custom_block (custom_block c) = Inr True" by (rule is_custom_custom_block)
      qed
      ultimately show ?thesis using False s2 by simp
    qed
  qed
qed

lemma ensureSystem_result:
  assumes "ensureSystem custom b = Inr b'"
  shows "\<exists>sys'. map_of b' ''system'' = Some (JArr sys') \<and>
           js_some is_identity_block sys' = Inr True \<and>
           (custom = None \<or> custom = Some [] \<or> js_some is_custom_block sys' = Inr True)"
proof -
  from assms obtain sys hasAuth sys' where
    m: "map_of (coerce_system b) ''system'' = Some (JArr sys)"
    and ha: "js_some is_identity_block sys = Inr hasAuth"
    and ac: "add_custom custom (if hasAuth then sys else text_block CC_SYSTEM # sys) = Inr sys'"
    and b': "b' = AList.update ''system'' (JArr sys') (coerce_system b)"
    unfolding ensureSystem_def Let_def
    by (auto split: option.splits json.splits dest!: bindE_Inr)
  have "js_some is_identity_block (if hasAuth then sys else text_block CC_SYSTEM # sys) = Inr True"
    using ha by (simp add: is_identity_text_block)
  with ac have "js_some is_identity_block sys' = Inr True \<and>
         (custom = None \<or> custom = Some [] \<or> js_some is_custom_block sys' = Inr True)"
    by (rule add_custom_result)
  moreover have "map_of b' ''system'' = Some (JArr sys')" using b' by (simp add: update_conv')
  ultimately show ?thesis by blast
qed

text \<open>
  Claim C5, as the code has it. \<open>ensureSystem\<close> leaves a body as it is when its
  \<^verbatim>\<open>system\<close> is a list in which the identity block is found and, in case a custom
  prompt is configured, a block marked \<^verbatim>\<open>_proxy\<close> is found too. And it is idempotent,
  with or without a custom prompt: a body it has returned is returned unchanged when
  it runs again.
\<close>

theorem ensureSystem_idempotent:
  "(map_of body ''system'' = Some (JArr sys) \<and> js_some is_identity_block sys = Inr True \<and>
    (custom = None \<or> custom = Some [] \<or> js_some is_custom_block sys = Inr True)
      \<longrightarrow> ensureSystem custom body = Inr body) \<and>
   (ensureSystem custom body = Inr body' \<longrightarrow> ensureSystem custom body' = Inr body')"
proof (intro conjI impI)
  assume "map_of body ''system'' = Some (JArr sys) \<and> js_some is_identity_block sys = Inr True \<and>
    (custom = None \<or> custom = Some [] \<or> js_some is_custom_block sys = Inr True)"
  then show "ensureSystem custom body = Inr body" by (simp add: ensureSystem_noop)
next
  assume "ensureSystem custom body = Inr body'"
  then obtain sys' where "map_of body' ''system'' = Some (JArr sys')"
    "js_some is_identity_block sys' = Inr True"
    "custom = None \<or> custom = Some [] \<or> js_some is_custom_block sys' = Inr True"
    using ensureSystem_result by blast
  then show "ensureSystem custom body' = Inr body'" by (rule ensureSystem_noop)
qed

theorem ensureSystem_idempotent_witness:
  "ensureSystem None ex_body_identity = Inr ex_body_identity \<and>
   ensureSystem (Some ''Be terse.'') ex_body_identity = Inr ex_body_marked \<and>
   ensureSystem (Some ''Be terse.'') ex_body_marked = Inr ex_body_marked"
proof -
  have m: "map_of ex_body_identity ''system'' = Some (JArr [text_block CC_SYSTEM])"
    by (simp add: ex_body_identity_def)
  have i: "js_some is_identity_block [text_block CC_SYSTEM] = Inr True"
    by (simp add: is_identity_text_block)
  have first: "ensureSystem (Some ''Be terse.'') ex_body_identity = Inr ex_body_marked"
    by code_simp
  from ensureSystem_idempotent [of ex_body_identity "[text_block CC_SYSTEM]" None ex_body_identity]
    ensureSystem_idempotent [of ex_body_identity "[]" "Some ''Be terse.''" ex_body_marked]
    m i first
  show ?thesis by simp
qed

text \<open>
  Claim C5 as stated fails when a custom prompt is configured and the body, though it
  has the identity block, has no block marked \<^verbatim>\<open>_proxy\<close> (a request as a client sends
  it): the custom block is inserted as the second block.
\<close>

theorem ensureSystem_inserts_custom:
  "map_of ex_body_identity ''system'' = Some (JArr [text_block CC_SYSTEM]) \<and>
   js_some is_identity_block [text_block CC_SYSTEM] = Inr True \<and>
   ensureSystem (Some ''Be terse.'') ex_body_identity = Inr ex_body_marked \<and>
   ex_body_marked \<noteq> ex_body_identity"
  by code_simp

section \<open>Single-flight token refresh\<close>


lemma step_call_in_flight:
  assumes "cached s = Some a" and "refreshing s = Some p"
    and "\<not> now < expires (heap s ! a) - EXPIRY_BUFFER_MS"
  shows "step env (Call now) s = (s, Wait p)"
  using assms by (simp add: check_token_def)

lemma run_calls_in_flight:
  assumes "cached s = Some a" and "refreshing s = Some p"
    and "\<forall>t \<in> set tms. \<not> t < expires (heap s ! a) - EXPIRY_BUFFER_MS"
  shows "run env (map Call tms) s = (s, replicate (length tms) (Wait p))"
  using assms(3)
proof (induction tms)
  case Nil
  show ?case by simp
next
  case (Cons t tms)
  from Cons.prems have ex: "\<not> t < expires (heap s ! a) - EXPIRY_BUFFER_MS" by simp
  have "step env (Call t) s = (s, Wait p)"
    using assms(1,2) ex by (rule step_call_in_flight)
  with Cons show ?case by (simp del: step.simps)
qed

lemma step_call_idle_token:
  assumes "cached s = Some a" and "refreshing s = None"
    and "\<not> now < expires (heap s ! a) - EXPIRY_BUFFER_MS" and "refresh (heap s ! a) \<noteq> []"
  shows "step env (Call now) s =
         (s\<lparr>promises := promises s @ [AwaitFetch a], refreshing := Some (length (promises s)),
            net_calls := net_calls s + 1\<rparr>, Wait (length (promises s)))"
  using assms by (simp add: check_token_def start_refresh_def Let_def)

lemma step_call_idle_notoken:
  assumes "cached s = Some a" and "refreshing s = None"
    and "\<not> now < expires (heap s ! a) - EXPIRY_BUFFER_MS" and "refresh (heap s ! a) = []"
  shows "step env (Call now) s =
         (s\<lparr>promises := promises s @ [Settled (Failure NoRefreshToken)], refreshing := None\<rparr>,
          Wait (length (promises s)))"
  using assms by (simp add: check_token_def start_refresh_def Let_def)

lemma run_calls_token:
  assumes "cached s = Some a" and "refreshing s = None" and "tms \<noteq> []"
    and "\<forall>t \<in> set tms. \<not> t < expires (heap s ! a) - EXPIRY_BUFFER_MS"
    and "refresh (heap s ! a) \<noteq> []"
  shows "run env (map Call tms) s =
         (s\<lparr>promises := promises s @ [AwaitFetch a], refreshing := Some (length (promises s)),
            net_calls := net_calls s + 1\<rparr>,
          replicate (length tms) (Wait (length (promises s))))"
proof -
  from assms(3) obtain t tms' where tms: "tms = t # tms'" by (cases tms) auto
  let ?s1 = "s\<lparr>promises := promises s @ [AwaitFetch a], refreshing := Some (length (promises s)),
               net_calls := net_calls s + 1\<rparr>"
  from assms(4) tms have ex: "\<not> t < expires (heap s ! a) - EXPIRY_BUFFER_MS" by simp
  have st: "step env (Call t) s = (?s1, Wait (length (promises s)))"
    using assms(1,2) ex assms(5) by (rule step_call_idle_token)
  have "run env (map Call tms') ?s1 = (?s1, replicate (length tms') (Wait (length (promises s))))"
    using assms(1,4) tms by (intro run_calls_in_flight [where a = a]) simp_all
  with st tms show ?thesis by (simp del: step.simps)
qed

lemma run_calls_notoken:
  assumes "cached s = Some a" and "refreshing s = None"
    and "\<forall>t \<in> set tms. \<not> t < expires (heap s ! a) - EXPIRY_BUFFER_MS"
    and "refresh (heap s ! a) = []"
  shows "run env (map Call tms) s =
         (s\<lparr>promises := promises s @ replicate (length tms) (Settled (Failure NoRefreshToken)),
            refreshing := None\<rparr>,
          map Wait [length (promises s) ..< length (promises s) + length tms])"
  using assms
proof (induction tms arbitrary: s)
  case Nil
  then show ?case by simp
next
  case (Cons t tms)
  let ?s1 = "s\<lparr>promises := promises s @ [Settled (Failure NoRefreshToken)], refreshing := None\<rparr>"
  from Cons.prems(3) have ex: "\<not> t < expires (heap s ! a) - EXPIRY_BUFFER_MS" by simp
  have st: "step env (Call t) s = (?s1, Wait (length (promises s)))"
    using Cons.prems(1,2) ex Cons.prems(4) by (rule step_call_idle_notoken)
  have ih: "run env (map Call tms) ?s1 =
         (?s1\<lparr>promises := promises ?s1 @ replicate (length tms) (Settled (Failure NoRefreshToken)),
            refreshing := None\<rparr>,
          map Wait [length (promises ?s1) ..< length (promises ?s1) + length tms])"
    using Cons.prems by (intro Cons.IH) simp_all
  have up: "[length (promises s) ..< length (promises s) + length (t # tms)] =
        length (promises s) # [length (promises ?s1) ..< length (promises ?s1) + length tms]"
    by (simp add: upt_rec)
  show ?case using st ih unfolding up by (simp add: replicate_app_Cons_same del: step.simps)
qed

lemma settled_check_token:
  "settled_at s p out \<Longrightarrow> settled_at (fst (check_token now a s)) p out"
  by (auto simp: settled_at_def check_token_def start_refresh_def Let_def nth_append split: option.splits)

lemma settled_settle:
  "settled_at s p out \<Longrightarrow> promises s' = promises s \<Longrightarrow> promises s ! pid \<noteq> Settled out \<Longrightarrow>
   settled_at (settle pid o' s') p out"
  by (cases "pid = p") (auto simp: settled_at_def settle_def)

lemma settled_step:
  assumes "settled_at s p out"
  shows "settled_at (fst (step env e s)) p out"
proof (cases e)
  case (Call now)
  show ?thesis
  proof (cases "cached s")
    case (Some a)
    with Call show ?thesis using settled_check_token [OF assms] by simp
  next
    case None
    show ?thesis
    proof (cases "initFromEnv env now")
      case None
      with \<open>cached s = None\<close> Call assms show ?thesis by (simp add: settled_at_def)
    next
      case (Some auth)
      let ?s2 = "s\<lparr>heap := heap s @ [auth], cached := Some (length (heap s))\<rparr>"
      have "settled_at ?s2 p out" using assms by (simp add: settled_at_def)
      then have "settled_at (fst (check_token now (length (heap s)) ?s2)) p out"
        by (rule settled_check_token)
      with Some \<open>cached s = None\<close> Call show ?thesis by simp
    qed
  qed
next
  case (ReadDone rid contents now)
  show ?thesis
  proof (cases "rid \<in> set (pending_reads s)")
    case False
    with ReadDone assms show ?thesis by simp
  next
    case True
    let ?s1 = "s\<lparr>pending_reads := removeAll rid (pending_reads s)\<rparr>"
    show ?thesis
    proof (cases contents)
      case None
      with True ReadDone assms show ?thesis by (simp add: settled_at_def)
    next
      case (Some auth)
      let ?s2 = "?s1\<lparr>heap := heap ?s1 @ [auth], cached := Some (length (heap ?s1))\<rparr>"
      have "settled_at ?s2 p out" using assms by (simp add: settled_at_def)
      then have "settled_at (fst (check_token now (length (heap ?s1)) ?s2)) p out"
        by (rule settled_check_token)
      with Some True ReadDone show ?thesis by (simp add: Let_def)
    qed
  qed
next
  case (FetchDone pid r now)
  show ?thesis
  proof (cases "pid < length (promises s)")
    case False
    with FetchDone assms show ?thesis by simp
  next
    case True
    show ?thesis
    proof (cases "promises s ! pid")
      case (AwaitFetch a)
      then have ne: "promises s ! pid \<noteq> Settled out" by simp
      then have nep: "pid \<noteq> p" using assms by (auto simp: settled_at_def)
      show ?thesis
      proof (cases r)
        case (Ok d)
        with FetchDone True AwaitFetch assms ne nep show ?thesis
          by (auto simp: Let_def settled_settle) (simp add: settled_at_def)
      qed (use FetchDone True AwaitFetch assms ne in \<open>simp_all add: settled_settle\<close>)
    qed (use FetchDone True assms in simp_all)
  qed
next
  case (WriteDone pid ok)
  show ?thesis
  proof (cases "pid < length (promises s)")
    case False
    with WriteDone assms show ?thesis by simp
  next
    case True
    show ?thesis
    proof (cases "promises s ! pid")
      case (AwaitWrite a)
      then have ne: "promises s ! pid \<noteq> Settled out" by simp
      with WriteDone True AwaitWrite assms show ?thesis by (simp add: settled_settle)
    qed (use WriteDone True assms in simp_all)
  qed
qed

lemma settled_run:
  "settled_at s p out \<Longrightarrow> settled_at (fst (run env es s)) p out"
proof (induction es arbitrary: s)
  case Nil
  then show ?case by simp
next
  case (Cons e es)
  from Cons.prems have "settled_at (fst (step env e s)) p out" by (rule settled_step)
  then have "settled_at (fst (run env es (fst (step env e s)))) p out" by (rule Cons.IH)
  then show ?case by (simp add: split_def Let_def)
qed

lemma received_settled: "settled_at s p out \<Longrightarrow> received s (Wait p) = Some out"
  by (simp add: settled_at_def)


lemma completion_http_error:
  assumes "p < length (promises s1)" and "promises s1 ! p = AwaitFetch a"
  shows "received (fst (run env [FetchDone p (HttpError code txt) now] s1)) (Wait p) =
         Some (Failure (RefreshFailed code txt))"
  using assms by (simp add: settle_def)

lemma completion_ok_env:
  assumes "p < length (promises s1)" and "promises s1 ! p = AwaitFetch a" and "a < length (heap s1)"
    and "env_token env \<noteq> []"
  shows "received (fst (run env [FetchDone p (Ok d) now] s1)) (Wait p) = Some (Token (access_token d))"
  using assms by (simp add: settle_def Let_def apply_response_def)

lemma completion_ok_file:
  assumes "p < length (promises s1)" and "promises s1 ! p = AwaitFetch a" and "a < length (heap s1)"
    and "env_token env = []"
  shows "received (fst (run env [FetchDone p (Ok d) now, WriteDone p True] s1)) (Wait p) =
         Some (Token (access_token d))"
  using assms by (simp add: settle_def Let_def apply_response_def)

text \<open>
  Claim C2, as the code has it. The credential is loaded and expired (or within the
  60 s buffer), no refresh is in flight, and callers invoke \<^verbatim>\<open>getAccessToken\<close> one
  after the other before anything else happens. Then every caller has a reply; the
  number of requests sent to the token endpoint grows by one if the credential has a
  refresh token and by none if it has not; and whatever happens later, any two of
  the callers have received the same thing. With a refresh token all callers await
  one and the same promise, which gives each of them the new access token when the
  endpoint answers with one (and the credential file is written, unless the
  credential comes from the environment), and the same \<open>RefreshFailed\<close> error when
  the endpoint answers with an error status. Without a refresh token every caller gets
  the rejection \<open>NoRefreshToken\<close>, and nothing is sent.
\<close>

theorem single_flight_refresh:
  assumes "cached s = Some a" and "a < length (heap s)" and "refreshing s = None" and "tms \<noteq> []"
    and "\<forall>t \<in> set tms. \<not> t < expires (heap s ! a) - EXPIRY_BUFFER_MS"
  shows "let s1 = fst (run env (map Call tms) s);
             replies = snd (run env (map Call tms) s);
             p = length (promises s)
         in length replies = length tms \<and>
            net_calls s1 = net_calls s + (if refresh (heap s ! a) = [] then 0 else 1) \<and>
            (\<forall>later. \<forall>r \<in> set replies. \<forall>r' \<in> set replies.
               received (fst (run env later s1)) r = received (fst (run env later s1)) r') \<and>
            (refresh (heap s ! a) \<noteq> [] \<longrightarrow>
               replies = replicate (length tms) (Wait p) \<and>
               (\<forall>code txt now.
                  received (fst (run env [FetchDone p (HttpError code txt) now] s1)) (Wait p) =
                  Some (Failure (RefreshFailed code txt))) \<and>
               (\<forall>d now. env_token env = [] \<longrightarrow>
                  received (fst (run env [FetchDone p (Ok d) now, WriteDone p True] s1)) (Wait p) =
                  Some (Token (access_token d))) \<and>
               (\<forall>d now. env_token env \<noteq> [] \<longrightarrow>
                  received (fst (run env [FetchDone p (Ok d) now] s1)) (Wait p) =
                  Some (Token (access_token d)))) \<and>
            (refresh (heap s ! a) = [] \<longrightarrow>
               (\<forall>later. \<forall>r \<in> set replies.
                  received (fst (run env later s1)) r = Some (Failure NoRefreshToken)))"
proof (cases "refresh (heap s ! a) = []")
  case False
  let ?p = "length (promises s)"
  let ?s1 = "s\<lparr>promises := promises s @ [AwaitFetch a], refreshing := Some ?p,
               net_calls := net_calls s + 1\<rparr>"
  have R: "run env (map Call tms) s = (?s1, replicate (length tms) (Wait ?p))"
    using assms(1,3,4,5) False by (rule run_calls_token)
  have p1: "?p < length (promises ?s1)" and p2: "promises ?s1 ! ?p = AwaitFetch a"
    and p3: "a < length (heap ?s1)"
    using assms(2) by simp_all
  note c1 = completion_http_error [OF p1 p2]
  note c2 = completion_ok_file [OF p1 p2 p3]
  note c3 = completion_ok_env [OF p1 p2 p3]
  show ?thesis
    unfolding Let_def R fst_conv snd_conv using False c1 c2 c3 by simp
next
  case True
  let ?p = "length (promises s)"
  let ?s1 = "s\<lparr>promises := promises s @ replicate (length tms) (Settled (Failure NoRefreshToken)),
               refreshing := None\<rparr>"
  have R: "run env (map Call tms) s = (?s1, map Wait [?p ..< ?p + length tms])"
    using assms(1,3,5) True by (rule run_calls_notoken)
  have fail: "received (fst (run env later ?s1)) r = Some (Failure NoRefreshToken)"
    if "r \<in> set (map Wait [?p ..< ?p + length tms])" for later r
  proof -
    from that obtain q where r: "r = Wait q" and q: "?p \<le> q" "q < ?p + length tms" by auto
    then have "settled_at ?s1 q (Failure NoRefreshToken)"
      by (simp add: settled_at_def nth_append)
    then have "settled_at (fst (run env later ?s1)) q (Failure NoRefreshToken)"
      by (rule settled_run)
    then show ?thesis unfolding r by (rule received_settled)
  qed
  show ?thesis
    unfolding Let_def R fst_conv snd_conv using True fail by simp
qed

theorem single_flight_refresh_witness:
  "snd (run ex_env_file (map Call [5000, 5001, 5002]) ex_auth) = [Wait 0, Wait 0, Wait 0] \<and>
   net_calls (fst (run ex_env_file (map Call [5000, 5001, 5002]) ex_auth)) = 1 \<and>
   received (fst (run ex_env_file [FetchDone 0 (Ok ex_response) 6000, WriteDone 0 True]
                    (fst (run ex_env_file (map Call [5000, 5001, 5002]) ex_auth)))) (Wait 0) =
     Some (Token ''new'') \<and>
   received (fst (run ex_env_file [FetchDone 0 (HttpError 401 ''denied'') 6000]
                    (fst (run ex_env_file (map Call [5000, 5001, 5002]) ex_auth)))) (Wait 0) =
     Some (Failure (RefreshFailed 401 ''denied''))"
proof -
  have h1: "cached ex_auth = Some 0" and h2: "0 < length (heap ex_auth)"
    and h3: "refreshing ex_auth = None" and h4: "[5000, 5001, 5002] \<noteq> ([] :: int list)"
    and h5: "\<forall>t \<in> set [5000, 5001, 5002]. \<not> t < expires (heap ex_auth ! 0) - EXPIRY_BUFFER_MS"
    by (simp_all add: ex_auth_def EXPIRY_BUFFER_MS_def)
  have r: "refresh (heap ex_auth ! 0) \<noteq> []" and e: "env_token ex_env_file = []"
    and p: "length (promises ex_auth) = 0" and a: "access_token ex_response = ''new''"
    by (simp_all add: ex_auth_def ex_env_file_def ex_response_def)
  note T = single_flight_refresh [OF h1 h2 h3 h4 h5, where env = ex_env_file, unfolded Let_def]
  note T4 = T [THEN conjunct2, THEN conjunct2, THEN conjunct2, THEN conjunct1, THEN mp, OF r]
  have n: "net_calls ex_auth + (if refresh (heap ex_auth ! 0) = [] then 0 else 1) = 1"
    by (simp add: ex_auth_def)
  have l: "replicate (length [5000, 5001, 5002 :: int]) (Wait 0) = [Wait 0, Wait 0, Wait 0]"
    by (simp add: numeral_3_eq_3)
  have c1: "snd (run ex_env_file (map Call [5000, 5001, 5002]) ex_auth) = [Wait 0, Wait 0, Wait 0]"
    using T4 [THEN conjunct1, unfolded p] l by (rule trans)
  have c2: "net_calls (fst (run ex_env_file (map Call [5000, 5001, 5002]) ex_auth)) = 1"
    using T [THEN conjunct2, THEN conjunct1] n by (rule trans)
  note c3 = T4 [THEN conjunct2, THEN conjunct2, THEN conjunct1, rule_format, OF e,
      of ex_response 6000, unfolded p a]
  note c4 = T4 [THEN conjunct2, THEN conjunct1, rule_format, of 401 "''denied''" 6000, unfolded p]
  from c1 c2 c3 c4 show ?thesis by (intro conjI)
qed

text \<open>
  Claim C2 as stated fails for a credential without a refresh token (an access token
  from the environment and no \<^verbatim>\<open>CLAUDE_OAUTH_REFRESH\<close>). The first call loads it with
  one hour of assumed validity; two callers arrive when it has run out; each gets
  the rejection \<open>NoRefreshToken\<close>, and no request is sent to the token endpoint,
  where the claim says exactly one.
\<close>

theorem expired_without_refresh_token:
  "snd (run ex_env_static [Call 0, Call 3600000, Call 3600001] auth_init) =
     [Ready ''tok'', Wait 0, Wait 1] \<and>
   \<not> 3600000 < expires (heap (fst (run ex_env_static [Call 0] auth_init)) ! 0) - EXPIRY_BUFFER_MS \<and>
   net_calls (fst (run ex_env_static [Call 0] auth_init)) = 0 \<and>
   net_calls (fst (run ex_env_static [Call 0, Call 3600000, Call 3600001] auth_init)) = 0 \<and>
   net_calls (fst (run ex_env_static [Call 0, Call 3600000, Call 3600001] auth_init)) \<noteq>
     net_calls (fst (run ex_env_static [Call 0] auth_init)) + 1 \<and>
   received (fst (run ex_env_static [Call 0, Call 3600000, Call 3600001] auth_init)) (Wait 0) =
     Some (Failure NoRefreshToken) \<and>
   received (fst (run ex_env_static [Call 0, Call 3600000, Call 3600001] auth_init)) (Wait 1) =
     Some (Failure NoRefreshToken)"
  by code_simp

end
